theory Spec2Isabelle
  imports Main "HOL-Library.AList" "HOL-Library.List_Lexorder" "HOL-Library.Char_ord"
    "HOL-Library.Multiset"
begin

section \<open>The chat server of \<^verbatim>\<open>server.py\<close>\<close>

text \<open>
  The model follows class \<^verbatim>\<open>ChatServer\<close>. A \<^verbatim>\<open>StreamWriter\<close> object is a connection
  identifier. The two dictionaries are association lists in insertion order, as a Python
  \<^verbatim>\<open>dict\<close> keeps them: \<open>AList.update\<close> is \<^verbatim>\<open>d[k] = v\<close> (in place for a present key, at
  the end for a new one) and \<open>AList.delete\<close> is \<^verbatim>\<open>d.pop(k, None)\<close>.

  What the code does to its sockets is made state: \<open>sent\<close> lists the writes that
  succeeded, in order; \<open>closed\<close> the writers on which \<^verbatim>\<open>close()\<close> was called. The
  environment is state as well: \<open>broken\<close> are the writers whose \<^verbatim>\<open>write\<close>/\<^verbatim>\<open>drain\<close>
  raises, and \<open>clock\<close> is what \<^verbatim>\<open>ts()\<close> returns. Both are fixed while one handler runs.
  Logging is left out. A Python \<^verbatim>\<open>str\<close> is a \<open>string\<close> whose characters are the code
  points below 256.

  Each handler is modelled as one uninterrupted run: the interleaving of several
  connection tasks at the \<^verbatim>\<open>await\<close> points is outside this model.
\<close>

subsection \<open>State\<close>

type_synonym conn = nat

record server =
  clients :: "(conn \<times> string option) list"
  nick_to_writer :: "(string \<times> conn) list"
  sent :: "(conn \<times> string) list"
  closed :: "conn set"
  broken :: "conn set"
  clock :: string

text \<open>\<^verbatim>\<open>ChatServer.__init__\<close>: both dictionaries empty.\<close>

definition init :: "conn set \<Rightarrow> string \<Rightarrow> server" where
  "init b c = \<lparr>clients = [], nick_to_writer = [], sent = [], closed = {}, broken = b, clock = c\<rparr>"

text \<open>\<^verbatim>\<open>self.clients.get(writer)\<close>: \<open>None\<close> for a missing key and for a stored \<open>None\<close>.\<close>

definition clients_get :: "server \<Rightarrow> conn \<Rightarrow> string option" where
  "clients_get s w = (case map_of (clients s) w of Some v \<Rightarrow> v | None \<Rightarrow> None)"

subsection \<open>Strings\<close>

text \<open>\<^verbatim>\<open>str.isspace\<close> on the code points below 256.\<close>

definition isspace :: "char \<Rightarrow> bool" where
  "isspace c \<longleftrightarrow> c \<in> set [CHR 0x09, CHR 0x0A, CHR 0x0B, CHR 0x0C, CHR 0x0D, CHR 0x1C, CHR 0x1D,
     CHR 0x1E, CHR 0x1F, CHR 0x20, CHR 0x85, CHR 0xA0]"

text \<open>\<^verbatim>\<open>str.lower\<close> on the code points below 256: A-Z, and the Latin-1 capitals but for
  the multiplication sign.\<close>

definition lower_char :: "char \<Rightarrow> char" where
  "lower_char c =
     (let n = (of_char c :: nat)
      in if (65 \<le> n \<and> n \<le> 90) \<or> (192 \<le> n \<and> n \<le> 222 \<and> n \<noteq> 215) then char_of (n + 32) else c)"

definition lower :: "string \<Rightarrow> string" where
  "lower = map lower_char"

text \<open>\<^verbatim>\<open>str.strip()\<close>.\<close>

definition strip :: "string \<Rightarrow> string" where
  "strip x = rev (dropWhile isspace (rev (dropWhile isspace x)))"

text \<open>
  \<^verbatim>\<open>str.split(maxsplit=k)\<close> with no separator: runs of whitespace separate the words,
  leading whitespace is skipped, and after \<open>k\<close> words the rest of the line, its leading
  whitespace skipped and its trailing whitespace kept, is one last element.
\<close>

fun split_ws :: "nat \<Rightarrow> string \<Rightarrow> string list" where
  "split_ws 0 x = (let r = dropWhile isspace x in if r = [] then [] else [r])"
| "split_ws (Suc k) x =
     (let r = dropWhile isspace x
      in if r = [] then []
         else takeWhile (\<lambda>c. \<not> isspace c) r # split_ws k (dropWhile (\<lambda>c. \<not> isspace c) r))"

text \<open>\<^verbatim>\<open>sep.join(xs)\<close>.\<close>

fun join :: "string \<Rightarrow> string list \<Rightarrow> string" where
  "join sep [] = []"
| "join sep [x] = x"
| "join sep (x # y # ys) = x @ sep @ join sep (y # ys)"

text \<open>The decimal numeral that \<^verbatim>\<open>format\<close> prints for a length.\<close>

definition digit :: "nat \<Rightarrow> char" where
  "digit d = char_of (48 + d)"

fun show_nat :: "nat \<Rightarrow> string" where
  "show_nat n = (if n < 10 then [digit n] else show_nat (n div 10) @ [digit (n mod 10)])"

declare show_nat.simps [simp del]

definition WELCOME :: string where
  "WELCOME = ''Welcome to AsyncChat!\<newline>Type /help for commands.\<newline>'' @
     ''First, set your nickname with: /nick <name>\<newline>''"

definition HELP :: string where
  "HELP = ''\<newline>Commands:\<newline>'' @
     ''/nick <name>       Set or change your nickname\<newline>'' @
     ''/list              List connected users\<newline>'' @
     ''/msg <user> <txt>  Send a private message\<newline>'' @
     ''/me <action>       Emote (e.g., /me waves)\<newline>'' @
     ''/quit              Disconnect\<newline>''"

subsection \<open>Writing, broadcasting, disconnecting\<close>

text \<open>\<^verbatim>\<open>writer.write(text.encode()); await writer.drain()\<close>: \<open>None\<close> when it raises.\<close>

definition write_drain :: "conn \<Rightarrow> string \<Rightarrow> server \<Rightarrow> server option" where
  "write_drain w text s =
     (if w \<in> broken s then None else Some (s\<lparr>sent := sent s @ [(w, text)]\<rparr>))"

text \<open>The first loop of \<^verbatim>\<open>broadcast\<close>, over \<^verbatim>\<open>list(self.clients.keys())\<close>.\<close>

fun broadcast_loop ::
  "conn list \<Rightarrow> conn set \<Rightarrow> string \<Rightarrow> conn list \<Rightarrow> server \<Rightarrow> conn list \<times> server" where
  "broadcast_loop [] exclude line dead s = (dead, s)"
| "broadcast_loop (w # ws) exclude line dead s =
     (if w \<in> exclude then broadcast_loop ws exclude line dead s
      else (case write_drain w line s of
              Some s' \<Rightarrow> broadcast_loop ws exclude line dead s'
            | None \<Rightarrow> broadcast_loop ws exclude line (dead @ [w]) s))"

text \<open>
  The part of \<^verbatim>\<open>disconnect\<close> before its broadcast: the pops under the lock, with
  \<open>name\<close> read before, and \<^verbatim>\<open>writer.close()\<close>.
\<close>

definition drop_client :: "conn \<Rightarrow> string option \<Rightarrow> server \<Rightarrow> server" where
  "drop_client writer name s =
     (let s1 = s\<lparr>clients := AList.delete writer (clients s)\<rparr>;
          s2 = (case name of
                  Some n \<Rightarrow>
                    if n \<noteq> [] then s1\<lparr>nick_to_writer := AList.delete n (nick_to_writer s1)\<rparr>
                    else s1
                | None \<Rightarrow> s1)
      in s2\<lparr>closed := insert writer (closed s2)\<rparr>)"

text \<open>
  \<^verbatim>\<open>disconnect\<close> and \<^verbatim>\<open>broadcast\<close> call each other; \<open>disconnect_each\<close> is the second
  loop of \<^verbatim>\<open>broadcast\<close>, \<^verbatim>\<open>for w in dead: await self.disconnect(w, reason="broken pipe")\<close>.
\<close>

function disconnect :: "conn \<Rightarrow> string \<Rightarrow> server \<Rightarrow> server"
  and broadcast :: "string \<Rightarrow> conn set \<Rightarrow> server \<Rightarrow> server"
  and disconnect_each :: "conn list \<Rightarrow> server \<Rightarrow> server"
where
  "disconnect writer reason s =
     (let name = clients_get s writer;
          s' = drop_client writer name s
      in (case name of
            Some n \<Rightarrow>
              if n \<noteq> [] then broadcast (''* '' @ n @ '' left ('' @ reason @ '')'') {} s' else s'
          | None \<Rightarrow> s'))"
| "broadcast text exclude s =
     (let line = ''['' @ clock s @ ''] '' @ text @ ''\<newline>'';
          (dead, s') = broadcast_loop (map fst (clients s)) exclude line [] s
      in disconnect_each dead s')"
| "disconnect_each [] s = s"
| "disconnect_each (w # ws) s = disconnect_each ws (disconnect w ''broken pipe'' s)"
  by pat_completeness auto

text \<open>
  Termination: a \<^verbatim>\<open>disconnect\<close> that broadcasts has removed a registered writer, and
  nothing in the recursion adds one.
\<close>

lemma broadcast_loop_eq:
  "broadcast_loop ws exclude line dead s =
     (dead @ filter (\<lambda>w. w \<notin> exclude \<and> w \<in> broken s) ws,
      s\<lparr>sent := sent s @ map (\<lambda>w. (w, line)) (filter (\<lambda>w. w \<notin> exclude \<and> w \<notin> broken s) ws)\<rparr>)"
  by (induction ws arbitrary: dead s) (simp_all add: write_drain_def)

lemma length_delete_less:
  "map_of xs k \<noteq> None \<Longrightarrow> length (AList.delete k xs) < length xs"
proof -
  assume "map_of xs k \<noteq> None"
  then obtain v where "(k, v) \<in> set xs" by (auto dest: map_of_SomeD)
  then have "length (filter (\<lambda>x. k \<noteq> fst x) xs) < length xs"
    by (intro length_filter_less[of "(k, v)"]) simp_all
  then show ?thesis by (simp add: AList.delete_eq case_prod_unfold)
qed

lemma clients_drop_client [simp]:
  "clients (drop_client w name s) = AList.delete w (clients s)"
  by (simp add: drop_client_def Let_def split: option.splits)

lemma clients_get_SomeD: "clients_get s w = Some n \<Longrightarrow> map_of (clients s) w \<noteq> None"
  by (auto simp: clients_get_def split: option.splits)

lemma shrink_partial:
  "disconnect_broadcast_disconnect_each_dom (Inl (w, r, s)) \<Longrightarrow>
     length (clients (disconnect w r s)) \<le> length (clients s)"
  "disconnect_broadcast_disconnect_each_dom (Inr (Inl (t, e, s))) \<Longrightarrow>
     length (clients (broadcast t e s)) \<le> length (clients s)"
  "disconnect_broadcast_disconnect_each_dom (Inr (Inr (ws, s))) \<Longrightarrow>
     length (clients (disconnect_each ws s)) \<le> length (clients s)"
proof (induction w r s and t e s and ws s rule: disconnect_broadcast_disconnect_each.pinduct)
  case (1 writer reason s)
  show ?case
  proof (cases "clients_get s writer")
    case None
    with 1(1) show ?thesis
      by (simp add: disconnect.psimps length_delete_le)
  next
    case (Some n)
    show ?thesis
    proof (cases "n = []")
      case True
      with Some 1(1) show ?thesis by (simp add: disconnect.psimps length_delete_le)
    next
      case False
      from 1(2)[OF refl refl Some False] Some
      have "length (clients (broadcast (''* '' @ n @ '' left ('' @ reason @ '')'') {} (drop_client writer (Some n) s)))
              \<le> length (AList.delete writer (clients s))" by simp
      also have "\<dots> \<le> length (clients s)" by (rule length_delete_le)
      finally show ?thesis using Some False 1(1) by (simp add: disconnect.psimps)
    qed
  qed
next
  case (2 msg excl s)
  from 2(2)[OF refl refl] 2(1) show ?case
    by (simp add: broadcast.psimps broadcast_loop_eq)
next
  case (3 s)
  then show ?case by (simp add: disconnect_each.psimps)
next
  case (4 w ws s)
  then show ?case by (simp add: disconnect_each.psimps)
qed

termination disconnect
proof (relation "inv_image (less_than <*lex*> less_than <*lex*> less_than)
    (\<lambda>x. case x of
        Inl (w, r, s) \<Rightarrow> (length (clients s), 0::nat, 0::nat)
      | Inr (Inl (t, e, s)) \<Rightarrow> (length (clients s), 2, 0)
      | Inr (Inr (ws, s)) \<Rightarrow> (length (clients s), 1, length ws))", goal_cases)
  case 1
  show ?case by auto
next
  case (2 writer reason s x xa x2)
  then show ?case
    by (auto simp: length_delete_less dest: clients_get_SomeD[OF sym])
next
  case (3 msg excl s x xa xb y)
  then show ?case by (auto simp: broadcast_loop_eq)
next
  case (4 w ws s)
  then show ?case by simp
next
  case (5 w ws s)
  from shrink_partial(1)[OF 5] show ?case
    by (auto simp: le_less)
qed

declare disconnect.simps [simp del] broadcast.simps [simp del]


text \<open>\<^verbatim>\<open>send_line\<close> disconnects the writer when the write raises; \<^verbatim>\<open>safe_send\<close> does nothing then.\<close>

definition send_line :: "conn \<Rightarrow> string \<Rightarrow> server \<Rightarrow> server" where
  "send_line writer text s =
     (case write_drain writer text s of
        Some s' \<Rightarrow> s'
      | None \<Rightarrow> disconnect writer ''send failed'' s)"

definition safe_send :: "conn \<Rightarrow> string \<Rightarrow> server \<Rightarrow> server" where
  "safe_send writer text s =
     (case write_drain writer text s of Some s' \<Rightarrow> s' | None \<Rightarrow> s)"

subsection \<open>The command dispatcher\<close>

text \<open>
  How a handler ends: it returns; or it raises (\<^verbatim>\<open>parts[0]\<close> on an empty list); or it
  never returns, which happens in one place: the rejection of a taken nickname is sent by
  \<^verbatim>\<open>send_line\<close> while \<^verbatim>\<open>self.lock\<close> is held, and when that write raises,
  \<^verbatim>\<open>disconnect\<close> waits for the same lock, which an \<^verbatim>\<open>asyncio.Lock\<close> never grants
  to its holder. Each outcome carries the state reached.
\<close>

datatype outcome = Return server | Raise server | Deadlock server

fun state_of :: "outcome \<Rightarrow> server" where
  "state_of (Return s) = s"
| "state_of (Raise s) = s"
| "state_of (Deadlock s) = s"

definition taken_msg :: string where
  "taken_msg = ''Nickname already in use. Try another.\<newline>''"

definition need_nick_msg :: string where
  "need_nick_msg = ''Set your nickname first: /nick <name>\<newline>''"

text \<open>
  The assignments of \<^verbatim>\<open>/nick\<close> under the lock, once the name is found free: the old
  name, when the writer has one, is popped, and the new one stored in both dictionaries.
\<close>

definition set_nick :: "conn \<Rightarrow> string \<Rightarrow> server \<Rightarrow> server" where
  "set_nick writer newnick s =
     (let d = (case clients_get s writer of
                 Some old \<Rightarrow>
                   if old \<noteq> [] then AList.delete old (nick_to_writer s) else nick_to_writer s
               | None \<Rightarrow> nick_to_writer s)
      in s\<lparr>clients := AList.update writer (Some newnick) (clients s),
            nick_to_writer := AList.update newnick writer d\<rparr>)"

text \<open>What follows a first nickname: the confirmation, and the notice to the others.\<close>

definition announce_join :: "conn \<Rightarrow> string \<Rightarrow> server \<Rightarrow> server" where
  "announce_join writer newnick s =
     broadcast (''* '' @ newnick @ '' joined the chat'') {writer}
       (send_line writer (''OK. You are now '' @ [CHR 0x27] @ newnick @ [CHR 0x27] @ ''.\<newline>'') s)"

text \<open>The branch \<^verbatim>\<open>if cmd == "/nick"\<close>; \<open>args\<close> is \<^verbatim>\<open>parts[1:]\<close>.\<close>

definition cmd_nick :: "conn \<Rightarrow> string list \<Rightarrow> server \<Rightarrow> outcome" where
  "cmd_nick writer args s =
     (case args of
        [] \<Rightarrow> Return (send_line writer ''Usage: /nick <name>\<newline>'' s)
      | a # _ \<Rightarrow>
          if strip a = [] then Return (send_line writer ''Usage: /nick <name>\<newline>'' s)
          else
            let newnick = strip a
            in if CHR '' '' \<in> set newnick
               then Return (send_line writer ''Nickname cannot contain spaces.\<newline>'' s)
               else if lower newnick \<in> set (map (\<lambda>(n, _). lower n) (nick_to_writer s))
               then (case write_drain writer taken_msg s of
                       Some s' \<Rightarrow> Return s'
                     | None \<Rightarrow> Deadlock s)
               else
                 (case clients_get s writer of
                    Some old \<Rightarrow>
                      if old \<noteq> []
                      then Return (broadcast (''* '' @ old @ '' is now known as '' @ newnick) {}
                                    (set_nick writer newnick s))
                      else Return (announce_join writer newnick (set_nick writer newnick s))
                  | None \<Rightarrow> Return (announce_join writer newnick (set_nick writer newnick s))))"

text \<open>The branch \<^verbatim>\<open>if cmd == "/list"\<close>; \<^verbatim>\<open>list.sort\<close> is stable, as \<open>sort_key\<close> is.\<close>

definition cmd_list :: "conn \<Rightarrow> server \<Rightarrow> server" where
  "cmd_list writer s =
     (let users = sort_key lower (map fst (nick_to_writer s))
      in send_line writer
           (''Users ('' @ show_nat (length users) @ ''): '' @ join '', '' users @ ''\<newline>'') s)"

text \<open>The branch \<^verbatim>\<open>if cmd == "/msg"\<close>.\<close>

definition cmd_msg :: "conn \<Rightarrow> string list \<Rightarrow> server \<Rightarrow> server" where
  "cmd_msg writer args s =
     (case args of
        target # text # _ \<Rightarrow>
          (case clients_get s writer of
             None \<Rightarrow> send_line writer need_nick_msg s
           | Some sender \<Rightarrow>
               if sender = [] then send_line writer need_nick_msg s
               else
                 (case map_of (nick_to_writer s) target of
                    None \<Rightarrow>
                      send_line writer (''User '' @ [CHR 0x27] @ target @ [CHR 0x27] @ '' not found.\<newline>'') s
                  | Some tw \<Rightarrow>
                      send_line writer (''[PM -> '' @ target @ ''] '' @ text @ ''\<newline>'')
                        (safe_send tw
                           (''['' @ clock s @ ''] [PM] <'' @ sender @ ''> '' @ text @ ''\<newline>'') s)))
      | _ \<Rightarrow> send_line writer ''Usage: /msg <user> <message>\<newline>'' s)"

text \<open>The branch \<^verbatim>\<open>if cmd == "/me"\<close>; the action is \<^verbatim>\<open>parts[1]\<close>.\<close>

definition cmd_me :: "conn \<Rightarrow> string list \<Rightarrow> server \<Rightarrow> server" where
  "cmd_me writer args s =
     (case args of
        [] \<Rightarrow> send_line writer ''Usage: /me <action>\<newline>'' s
      | action # _ \<Rightarrow>
          (case clients_get s writer of
             None \<Rightarrow> send_line writer need_nick_msg s
           | Some sender \<Rightarrow>
               if sender = [] then send_line writer need_nick_msg s
               else broadcast (''* '' @ sender @ '' '' @ action) {} s))"

definition handle_command :: "conn \<Rightarrow> string \<Rightarrow> server \<Rightarrow> outcome" where
  "handle_command writer line s =
     (case split_ws 2 line of
        [] \<Rightarrow> Raise s
      | p # args \<Rightarrow>
          let cmd = lower p
          in if cmd = ''/help'' then Return (send_line writer HELP s)
             else if cmd = ''/quit'' then Return (disconnect writer ''quit'' s)
             else if cmd = ''/nick'' then cmd_nick writer args s
             else if cmd = ''/list'' then Return (cmd_list writer s)
             else if cmd = ''/msg'' then Return (cmd_msg writer args s)
             else if cmd = ''/me'' then Return (cmd_me writer args s)
             else Return (send_line writer ''Unknown command. Type /help\<newline>'' s))"

definition handle_chat :: "conn \<Rightarrow> string \<Rightarrow> server \<Rightarrow> server" where
  "handle_chat writer text s =
     (case clients_get s writer of
        None \<Rightarrow> send_line writer need_nick_msg s
      | Some sender \<Rightarrow>
          if sender = [] then send_line writer need_nick_msg s
          else broadcast (''<'' @ sender @ ''> '' @ text) {} s)"

subsection \<open>The connection handler\<close>

text \<open>
  \<^verbatim>\<open>handle_client\<close> before its loop: the writer is registered without a nickname and
  welcomed.
\<close>

definition accept :: "conn \<Rightarrow> server \<Rightarrow> server" where
  "accept writer s = send_line writer WELCOME (s\<lparr>clients := AList.update writer None (clients s)\<rparr>)"

text \<open>
  One turn of the loop of \<^verbatim>\<open>handle_client\<close> on a decoded line with its line end
  stripped. An exception of the dispatcher reaches \<^verbatim>\<open>except Exception\<close>, which
  disconnects with reason \<^verbatim>\<open>server error\<close>.
\<close>

definition handle_line :: "conn \<Rightarrow> string \<Rightarrow> server \<Rightarrow> outcome" where
  "handle_line writer line s =
     (if line = [] then Return s
      else if hd line = CHR ''/'' then
        (case handle_command writer line s of
           Raise s' \<Rightarrow> Return (disconnect writer ''server error'' s')
         | r \<Rightarrow> r)
      else Return (handle_chat writer line s))"

text \<open>
  What happens to the server: a connection is accepted, a line arrives on a connection, a
  connection is disconnected for a reason (end of stream, transport error), or the
  environment changes which writers fail and what the clock shows. An accepted
  connection has a new \<^verbatim>\<open>StreamWriter\<close>, one that neither dictionary holds; an
  \<open>Accept\<close> of a writer that is still held is no event of the program and is skipped.
\<close>

datatype event = Accept conn | Recv conn string | Drop conn string | Env "conn set" string

definition held :: "server \<Rightarrow> conn \<Rightarrow> bool" where
  "held s w \<longleftrightarrow> w \<in> set (map fst (clients s)) \<or> w \<in> set (map snd (nick_to_writer s))"

fun step :: "event \<Rightarrow> server \<Rightarrow> outcome" where
  "step (Accept w) s = Return (if held s w then s else accept w s)"
| "step (Recv w line) s = handle_line w line s"
| "step (Drop w reason) s = Return (disconnect w reason s)"
| "step (Env b c) s = Return (s\<lparr>broken := b, clock := c\<rparr>)"

text \<open>A run stops where a handler deadlocks: the lock is never released again.\<close>

fun run :: "event list \<Rightarrow> server \<Rightarrow> outcome" where
  "run [] s = Return s"
| "run (e # es) s =
     (case step e s of
        Return s' \<Rightarrow> run es s'
      | r \<Rightarrow> r)"


subsection \<open>Decoding a received line\<close>

text \<open>
  \<^verbatim>\<open>raw.decode(errors="ignore")\<close> is the UTF-8 decoder of Python, modelled on bytes as
  naturals below 256 and code points as naturals. The error handler is its parameter:
  \<^verbatim>\<open>strict\<close> raises at the first malformed byte, \<^verbatim>\<open>ignore\<close> drops the malformed
  bytes, \<^verbatim>\<open>replace\<close> puts U+FFFD for each malformed run. The handler of the chat
  server passes \<^verbatim>\<open>ignore\<close>.
\<close>

datatype errors = Strict | Ignore | Replace

datatype py_error = UnicodeDecodeError

text \<open>A continuation byte, and the second byte allowed after a three- or four-byte lead.\<close>

definition cont :: "nat \<Rightarrow> bool" where
  "cont b \<longleftrightarrow> 0x80 \<le> b \<and> b \<le> 0xBF"

definition second3 :: "nat \<Rightarrow> nat \<Rightarrow> bool" where
  "second3 b0 b1 \<longleftrightarrow>
     (if b0 = 0xE0 then 0xA0 \<le> b1 \<and> b1 \<le> 0xBF
      else if b0 = 0xED then 0x80 \<le> b1 \<and> b1 \<le> 0x9F
      else cont b1)"

definition second4 :: "nat \<Rightarrow> nat \<Rightarrow> bool" where
  "second4 b0 b1 \<longleftrightarrow>
     (if b0 = 0xF0 then 0x90 \<le> b1 \<and> b1 \<le> 0xBF
      else if b0 = 0xF4 then 0x80 \<le> b1 \<and> b1 \<le> 0x8F
      else cont b1)"

text \<open>
  The character that begins the list, with the bytes after it, when the list begins with
  a well-formed sequence: no overlong forms, no surrogates, nothing above U+10FFFF.
\<close>

fun utf8_next :: "nat list \<Rightarrow> (nat \<times> nat list) option" where
  "utf8_next [] = None"
| "utf8_next (b0 # bs) =
     (if b0 < 0x80 then Some (b0, bs)
      else if 0xC2 \<le> b0 \<and> b0 \<le> 0xDF then
        (case bs of
           b1 # r \<Rightarrow> if cont b1 then Some ((b0 - 0xC0) * 64 + (b1 - 0x80), r) else None
         | _ \<Rightarrow> None)
      else if 0xE0 \<le> b0 \<and> b0 \<le> 0xEF then
        (case bs of
           b1 # b2 # r \<Rightarrow>
             if second3 b0 b1 \<and> cont b2
             then Some ((b0 - 0xE0) * 4096 + (b1 - 0x80) * 64 + (b2 - 0x80), r) else None
         | _ \<Rightarrow> None)
      else if 0xF0 \<le> b0 \<and> b0 \<le> 0xF4 then
        (case bs of
           b1 # b2 # b3 # r \<Rightarrow>
             if second4 b0 b1 \<and> cont b2 \<and> cont b3
             then Some ((b0 - 0xF0) * 262144 + (b1 - 0x80) * 4096 + (b2 - 0x80) * 64 + (b3 - 0x80), r)
             else None
         | _ \<Rightarrow> None)
      else None)"

text \<open>
  The length of the malformed run where no character begins: the lead byte and the
  continuation bytes that were acceptable after it.
\<close>

fun bad_span :: "nat list \<Rightarrow> nat" where
  "bad_span [] = 0"
| "bad_span (b0 # bs) =
     (if 0xE0 \<le> b0 \<and> b0 \<le> 0xEF then
        (case bs of b1 # _ \<Rightarrow> if second3 b0 b1 then 2 else 1 | [] \<Rightarrow> 1)
      else if 0xF0 \<le> b0 \<and> b0 \<le> 0xF4 then
        (case bs of
           b1 # r \<Rightarrow>
             if second4 b0 b1 then (case r of b2 # _ \<Rightarrow> if cont b2 then 3 else 2 | [] \<Rightarrow> 2)
             else 1
         | [] \<Rightarrow> 1)
      else 1)"

lemma utf8_next_shorter: "utf8_next xs = Some (cp, rest) \<Longrightarrow> length rest < length xs"
  by (cases xs) (auto split: if_splits list.splits)

lemma bad_span_pos: "0 < bad_span (b # bs)"
  by (auto split: list.splits)

lemma drop_bad_span: "length (drop (bad_span (b # bs)) (b # bs)) < Suc (length bs)"
  using bad_span_pos[of b bs] by (simp del: bad_span.simps)

function decode :: "errors \<Rightarrow> nat list \<Rightarrow> py_error + nat list" where
  "decode e [] = Inr []"
| "decode e (b # bs) =
     (case utf8_next (b # bs) of
        Some (cp, rest) \<Rightarrow>
          (case decode e rest of Inl x \<Rightarrow> Inl x | Inr cps \<Rightarrow> Inr (cp # cps))
      | None \<Rightarrow>
          (case e of
             Strict \<Rightarrow> Inl UnicodeDecodeError
           | Ignore \<Rightarrow> decode e (drop (bad_span (b # bs)) (b # bs))
           | Replace \<Rightarrow>
               (case decode e (drop (bad_span (b # bs)) (b # bs)) of
                  Inl x \<Rightarrow> Inl x
                | Inr cps \<Rightarrow> Inr (0xFFFD # cps))))"
  by pat_completeness auto
termination decode
  by (relation "measure (\<lambda>(e, xs). length xs)")
     (auto dest!: utf8_next_shorter[OF sym] utf8_next_shorter intro!: drop_bad_span
           simp del: utf8_next.simps bad_span.simps drop_Suc_Cons length_drop)

text \<open>the call of \<^verbatim>\<open>rstrip\<close> with carriage return and line feed, and line 101 of the handler as a whole.\<close>

definition rstrip_crlf :: "nat list \<Rightarrow> nat list" where
  "rstrip_crlf xs = rev (dropWhile (\<lambda>c. c = 13 \<or> c = 10) (rev xs))"

definition decode_line :: "nat list \<Rightarrow> py_error + nat list" where
  "decode_line raw = (case decode Ignore raw of Inl x \<Rightarrow> Inl x | Inr cps \<Rightarrow> Inr (rstrip_crlf cps))"

subsection \<open>The invariant of the two dictionaries\<close>

text \<open>A word of \<^verbatim>\<open>split\<close>: not empty, no whitespace in it.\<close>

definition token :: "string \<Rightarrow> bool" where
  "token n \<longleftrightarrow> n \<noteq> [] \<and> list_all (\<lambda>c. \<not> isspace c) n"

text \<open>
  The registry and the directory agree: no writer is registered twice, no two names of
  the directory are equal up to case, every entry of the directory is the nickname the
  registry has for its writer, every nickname of the registry is in the directory under
  its writer, and every name is a word.
\<close>

definition consistent :: "server \<Rightarrow> bool" where
  "consistent s \<longleftrightarrow>
     distinct (map fst (clients s)) \<and>
     distinct (map (\<lambda>(n, _). lower n) (nick_to_writer s)) \<and>
     list_all (\<lambda>(n, c). map_of (clients s) c = Some (Some n) \<and> token n) (nick_to_writer s) \<and>
     list_all (\<lambda>(c, v). case v of None \<Rightarrow> True | Some n \<Rightarrow> map_of (nick_to_writer s) n = Some c)
       (clients s)"

text \<open>The state the server is in after a list of events, from its start.\<close>

definition final :: "event list \<Rightarrow> conn set \<Rightarrow> string \<Rightarrow> server" where
  "final evs b c = state_of (run evs (init b c))"

text \<open>
  The line a \<^verbatim>\<open>disconnect\<close> for \<open>reason\<close> broadcasts about the nickname \<open>n\<close>:
  \<^verbatim>\<open>f"* {name} left ({reason})"\<close> inside the timestamped line of \<^verbatim>\<open>broadcast\<close>.
\<close>

definition departure :: "server \<Rightarrow> string \<Rightarrow> string \<Rightarrow> string" where
  "departure s n reason = ''['' @ clock s @ ''] '' @ (''* '' @ n @ '' left ('' @ reason @ '')'') @ ''\<newline>''"

text \<open>The nicknames stored in the registry.\<close>

definition names :: "server \<Rightarrow> string set" where
  "names s = set (List.map_filter snd (clients s))"

section \<open>Properties\<close>

subsection \<open>Unfolding the recursion\<close>

lemma disconnect_unfold:
  "disconnect w r s =
     (case clients_get s w of
        None \<Rightarrow> drop_client w None s
      | Some n \<Rightarrow>
          if n \<noteq> [] then broadcast (''* '' @ n @ '' left ('' @ r @ '')'') {} (drop_client w (Some n) s)
          else drop_client w (Some n) s)"
  by (simp add: disconnect.simps Let_def split: option.splits)

lemma broadcast_unfold:
  "broadcast t e s =
     disconnect_each (filter (\<lambda>w. w \<notin> e \<and> w \<in> broken s) (map fst (clients s)))
       (s\<lparr>sent := sent s @ map (\<lambda>w. (w, ''['' @ clock s @ ''] '' @ t @ ''\<newline>''))
                            (filter (\<lambda>w. w \<notin> e \<and> w \<notin> broken s) (map fst (clients s)))\<rparr>)"
  by (simp add: broadcast.simps Let_def broadcast_loop_eq)

lemma closed_drop_client [simp]: "closed (drop_client w name s) = insert w (closed s)"
  by (simp add: drop_client_def Let_def split: option.splits)

lemma keys_shrink:
  "fst ` set (clients (disconnect w r s)) \<subseteq> fst ` set (clients s) - {w}"
  "fst ` set (clients (broadcast t e s)) \<subseteq> fst ` set (clients s)"
  "fst ` set (clients (disconnect_each ws s)) \<subseteq> fst ` set (clients s)"
proof (induction w r s and t e s and ws s rule: disconnect_broadcast_disconnect_each.induct)
  case (1 writer reason s)
  have d: "fst ` set (AList.delete writer (clients s)) \<subseteq> fst ` set (clients s) - {writer}"
    using delete_notin_dom[of writer "clients s"] dom_delete_subset[of writer "clients s"] by blast
  show ?case
  proof (cases "clients_get s writer")
    case None
    then show ?thesis using d by (simp add: disconnect_unfold)
  next
    case (Some n)
    show ?thesis
    proof (cases "n = []")
      case True
      with Some d show ?thesis by (simp add: disconnect_unfold)
    next
      case False
      from 1[OF refl refl Some False] Some d False show ?thesis
        by (simp add: disconnect_unfold)
    qed
  qed
next
  case (2 msg excl s)
  from 2[OF refl refl] show ?case
    by (simp add: broadcast.simps broadcast_loop_eq)
next
  case (3 s)
  show ?case by simp
next
  case (4 w ws s)
  then show ?case by simp blast
qed

lemma closed_grows:
  "insert w (closed s) \<subseteq> closed (disconnect w r s)"
  "closed s \<subseteq> closed (broadcast t e s)"
  "closed s \<subseteq> closed (disconnect_each ws s)"
proof (induction w r s and t e s and ws s rule: disconnect_broadcast_disconnect_each.induct)
  case (1 writer reason s)
  show ?case
  proof (cases "clients_get s writer")
    case None
    then show ?thesis by (simp add: disconnect_unfold)
  next
    case (Some n)
    show ?thesis
    proof (cases "n = []")
      case True
      with Some show ?thesis by (simp add: disconnect_unfold)
    next
      case False
      from 1[OF refl refl Some False] Some False show ?thesis
        by (simp add: disconnect_unfold)
    qed
  qed
next
  case (2 msg excl s)
  from 2[OF refl refl] show ?case
    by (simp add: broadcast.simps broadcast_loop_eq)
next
  case (3 s)
  show ?case by simp
next
  case (4 w ws s)
  then show ?case by simp blast
qed

lemma disconnect_unregistered:
  assumes "w \<notin> fst ` set (clients s)" and "w \<in> closed s"
  shows "disconnect w r s = s"
proof -
  from assms(1) have "map_of (clients s) w = None"
    by (simp add: map_of_eq_None_iff)
  then have "clients_get s w = None" by (simp add: clients_get_def)
  moreover have "drop_client w None s = s"
    using assms by (simp add: drop_client_def Let_def insert_absorb)
  ultimately show ?thesis by (simp add: disconnect_unfold)
qed


lemma quit_command: "handle_command w ''/quit'' s = Return (disconnect w ''quit'' s)"
  by (simp add: handle_command_def numeral_2_eq_2 isspace_def lower_def lower_char_def Let_def)

subsection \<open>The invariant is kept\<close>

lemma distinct_lower_keys:
  assumes "distinct (map (\<lambda>(n, _). lower n) al)"
  shows "distinct (map fst al)"
proof -
  have "map (\<lambda>(n, _). lower n) al = map lower (map fst al)"
    by (simp add: case_prod_unfold comp_def)
  with assms have "distinct (map lower (map fst al))" by simp
  then show ?thesis using distinct_map[of lower "map fst al"] by blast
qed

lemma list_all_pairs:
  "list_all (\<lambda>(a, b). P a b) xs \<longleftrightarrow> (\<forall>a b. (a, b) \<in> set xs \<longrightarrow> P a b)"
  by (auto simp: list_all_iff)

lemma list_all_named:
  "list_all (\<lambda>(c, v). case v of None \<Rightarrow> True | Some n \<Rightarrow> P c n) xs \<longleftrightarrow>
     (\<forall>c n. (c, Some n) \<in> set xs \<longrightarrow> P c n)"
  by (induction xs) (auto split: option.splits)

lemma consistent_iff:
  "consistent s \<longleftrightarrow>
     distinct (map fst (clients s)) \<and>
     distinct (map (\<lambda>(n, _). lower n) (nick_to_writer s)) \<and>
     (\<forall>n c. map_of (nick_to_writer s) n = Some c \<longrightarrow> map_of (clients s) c = Some (Some n) \<and> token n) \<and>
     (\<forall>c n. map_of (clients s) c = Some (Some n) \<longrightarrow> map_of (nick_to_writer s) n = Some c)"
proof (cases "distinct (map fst (clients s)) \<and> distinct (map (\<lambda>(n, _). lower n) (nick_to_writer s))")
  case True
  then have d1: "distinct (map fst (clients s))"
    and d3: "distinct (map fst (nick_to_writer s))"
    by (simp_all add: distinct_lower_keys)
  have m1: "(c, Some n) \<in> set (clients s) \<longleftrightarrow> map_of (clients s) c = Some (Some n)" for c n
    using d1 by simp
  have m2: "(n, c) \<in> set (nick_to_writer s) \<longleftrightarrow> map_of (nick_to_writer s) n = Some c" for c n
    using d3 by simp
  show ?thesis
    unfolding consistent_def list_all_named list_all_pairs[of "\<lambda>n c. map_of (clients s) c = Some (Some n) \<and> token n"] m1 m2 ..
next
  case False
  then show ?thesis by (auto simp: consistent_def)
qed

lemma consistent_cong:
  assumes "clients s' = clients s" and "nick_to_writer s' = nick_to_writer s"
  shows "consistent s' = consistent s"
  unfolding consistent_def assms ..

lemma distinct_lower_delete:
  "distinct (map (\<lambda>(n, _). lower n) al) \<Longrightarrow> distinct (map (\<lambda>(n, _). lower n) (AList.delete k al))"
  by (simp add: AList.delete_eq distinct_map_filter)

lemma nick_drop_client:
  "nick_to_writer (drop_client w name s) =
     (case name of None \<Rightarrow> nick_to_writer s
      | Some n \<Rightarrow> if n \<noteq> [] then AList.delete n (nick_to_writer s) else nick_to_writer s)"
  by (simp add: drop_client_def Let_def split: option.splits)

lemma consistent_drop_client:
  assumes "consistent s"
  shows "consistent (drop_client w (clients_get s w) s)"
proof -
  let ?s' = "drop_client w (clients_get s w) s"
  from assms have d1: "distinct (map fst (clients s))"
    and d2: "distinct (map (\<lambda>(n, _). lower n) (nick_to_writer s))"
    and a: "\<And>n c. map_of (nick_to_writer s) n = Some c \<Longrightarrow> map_of (clients s) c = Some (Some n) \<and> token n"
    and b: "\<And>c n. map_of (clients s) c = Some (Some n) \<Longrightarrow> map_of (nick_to_writer s) n = Some c"
    unfolding consistent_iff by blast+
  have e1: "distinct (map fst (clients ?s'))" using d1 by (simp add: distinct_delete)
  have e2: "distinct (map (\<lambda>(n, _). lower n) (nick_to_writer ?s'))"
    using d2 by (simp add: nick_drop_client distinct_lower_delete split: option.splits)
  have e3: "map_of (clients ?s') c = Some (Some n) \<and> token n"
    if h: "map_of (nick_to_writer ?s') n = Some c" for n c
  proof -
    from h have h': "map_of (nick_to_writer s) n = Some c"
      by (auto simp: nick_drop_client delete_conv' split: option.splits if_splits)
    from a[OF h'] have c: "map_of (clients s) c = Some (Some n)" and t: "token n" by simp_all
    have "c \<noteq> w"
    proof
      assume "c = w"
      with c have "clients_get s w = Some n" by (simp add: clients_get_def)
      with h t show False
        by (simp add: nick_drop_client delete_conv' token_def)
    qed
    with c t show ?thesis by (simp add: delete_conv')
  qed
  have e4: "map_of (nick_to_writer ?s') n = Some c"
    if h: "map_of (clients ?s') c = Some (Some n)" for n c
  proof -
    from h have cw: "c \<noteq> w" and c: "map_of (clients s) c = Some (Some n)"
      by (auto simp: delete_conv' split: if_splits)
    from b[OF c] have n: "map_of (nick_to_writer s) n = Some c" .
    have "m \<noteq> n" if m: "clients_get s w = Some m" for m
    proof
      assume "m = n"
      with m have "map_of (clients s) w = Some (Some n)"
        by (auto simp: clients_get_def split: option.splits)
      from b[OF this] n cw show False by simp
    qed
    with n show ?thesis
      by (auto simp: nick_drop_client delete_conv' split: option.splits)
  qed
  from e3 have E3: "\<forall>n c. map_of (nick_to_writer ?s') n = Some c \<longrightarrow>
      map_of (clients ?s') c = Some (Some n) \<and> token n" by blast
  from e4 have E4: "\<forall>c n. map_of (clients ?s') c = Some (Some n) \<longrightarrow>
      map_of (nick_to_writer ?s') n = Some c" by blast
  show ?thesis by (subst consistent_iff) (intro conjI e1 e2 E3 E4)
qed

lemma consistent_recursion:
  "consistent s \<Longrightarrow> consistent (disconnect w r s)"
  "consistent s \<Longrightarrow> consistent (broadcast t e s)"
  "consistent s \<Longrightarrow> consistent (disconnect_each ws s)"
proof (induction w r s and t e s and ws s rule: disconnect_broadcast_disconnect_each.induct)
  case (1 writer reason s)
  from 1(2) have c: "consistent (drop_client writer (clients_get s writer) s)"
    by (rule consistent_drop_client)
  show ?case
  proof (cases "clients_get s writer")
    case None
    with c show ?thesis by (simp add: disconnect_unfold)
  next
    case (Some n)
    show ?thesis
    proof (cases "n = []")
      case True
      with Some c show ?thesis by (simp add: disconnect_unfold)
    next
      case False
      from 1(1)[OF refl refl Some False] c Some False show ?thesis
        by (simp add: disconnect_unfold)
    qed
  qed
next
  case (2 msg excl s)
  have "consistent (s\<lparr>sent := x\<rparr>)" for x
    using 2(2) consistent_cong[of "s\<lparr>sent := x\<rparr>" s] by simp
  with 2(1)[OF refl refl] show ?case
    by (simp add: broadcast.simps broadcast_loop_eq)
next
  case (3 s)
  then show ?case by simp
next
  case (4 w ws s)
  then show ?case by simp
qed

subsection \<open>Disconnecting twice\<close>

text \<open>
  Claim C8. Disconnecting is idempotent: a second \<^verbatim>\<open>disconnect\<close> of the same
  connection, for whatever reason, leaves the whole state as the first one left it (the
  registry, the directory, the lines sent to every connection, so no second departure
  notice, and the set of closed writers); in particular a \<^verbatim>\<open>/quit\<close> line handled after
  the connection was disconnected returns with the state unchanged.
\<close>

theorem disconnect_idempotent:
  "disconnect w r' (disconnect w r s) = disconnect w r s \<and>
   handle_line w ''/quit'' (disconnect w r s) = Return (disconnect w r s)"
proof -
  have 1: "w \<notin> fst ` set (clients (disconnect w r s))"
    using keys_shrink(1)[of w r s] by blast
  have 2: "w \<in> closed (disconnect w r s)"
    using closed_grows(1)[of w s r] by blast
  have "disconnect w r' (disconnect w r s) = disconnect w r s" for r'
    using 1 2 by (rule disconnect_unregistered)
  then show ?thesis
    by (simp add: handle_line_def quit_command)
qed

subsection \<open>Words\<close>

lemma space_isspace: "isspace CHR '' ''"
  by (simp add: isspace_def)

lemma token_no_space: "token a \<Longrightarrow> CHR '' '' \<notin> set a"
  using space_isspace by (auto simp: token_def list_all_iff)

lemma token_hd: "token a \<Longrightarrow> \<not> isspace (hd a)"
  by (cases a) (auto simp: token_def)

lemma token_dropWhile: "token a \<Longrightarrow> dropWhile isspace a = a"
  by (cases a) (auto simp: token_def)

lemma token_takeWhile: "token a \<Longrightarrow> takeWhile (\<lambda>c. \<not> isspace c) a = a"
  by (simp add: token_def list_all_iff)

lemma token_rev: "token a \<Longrightarrow> token (rev a)"
  by (simp add: token_def list_all_iff)

lemma strip_token: "token a \<Longrightarrow> strip a = a"
  by (simp add: strip_def token_dropWhile token_rev)

lemma split_ws_Suc:
  assumes "split_ws (Suc k) x = p # ps"
  shows "token p" and "ps = split_ws k (dropWhile (\<lambda>c. \<not> isspace c) (dropWhile isspace x))"
proof -
  let ?r = "dropWhile isspace x"
  from assms have r: "?r \<noteq> []" and p: "p = takeWhile (\<lambda>c. \<not> isspace c) ?r"
    and ps: "ps = split_ws k (dropWhile (\<lambda>c. \<not> isspace c) ?r)"
    by (auto simp: Let_def split: if_splits)
  from r have "\<not> isspace (hd ?r)" by (rule hd_dropWhile)
  with r p have "p \<noteq> []" by (cases ?r) auto
  moreover have "\<forall>c\<in>set p. \<not> isspace c"
    unfolding p by (auto dest: set_takeWhileD)
  ultimately show "token p" by (simp add: token_def list_all_iff)
  from ps show "ps = split_ws k (dropWhile (\<lambda>c. \<not> isspace c) (dropWhile isspace x))" .
qed

lemma split_ws_args:
  assumes "split_ws 2 line = p # a # rest"
  shows "token p" and "token a"
proof -
  from assms have s: "split_ws (Suc (Suc 0)) line = p # a # rest" by (simp add: numeral_2_eq_2)
  from split_ws_Suc(1)[OF s] show "token p" .
  from split_ws_Suc(2)[OF s]
  have t: "a # rest = split_ws (Suc 0) (dropWhile (\<lambda>c. \<not> isspace c) (dropWhile isspace line))" .
  from split_ws_Suc(1)[OF t[symmetric]] show "token a" .
qed

subsection \<open>set_nick\<close>

lemma update_fresh: "k \<notin> fst ` set al \<Longrightarrow> AList.update k v al = al @ [(k, v)]"
  by (induction al) auto

lemma lower_fresh_key:
  "lower k \<notin> set (map (\<lambda>(n, _). lower n) al) \<Longrightarrow> k \<notin> fst ` set al"
  by force

lemma lower_fresh_delete:
  "lower k \<notin> set (map (\<lambda>(n, _). lower n) al) \<Longrightarrow>
   lower k \<notin> set (map (\<lambda>(n, _). lower n) (AList.delete j al))"
  by (auto simp: AList.delete_eq)

lemma distinct_lower_update:
  assumes "distinct (map (\<lambda>(n, _). lower n) al)"
    and "lower k \<notin> set (map (\<lambda>(n, _). lower n) al)"
  shows "distinct (map (\<lambda>(n, _). lower n) (AList.update k v al))"
  using assms by (simp add: update_fresh[OF lower_fresh_key[OF assms(2)]])

lemma clients_set_nick [simp]:
  "clients (set_nick w nn s) = AList.update w (Some nn) (clients s)"
  by (simp add: set_nick_def Let_def)

lemma nick_set_nick:
  "nick_to_writer (set_nick w nn s) =
     AList.update nn w
       (case clients_get s w of
          Some old \<Rightarrow> if old \<noteq> [] then AList.delete old (nick_to_writer s) else nick_to_writer s
        | None \<Rightarrow> nick_to_writer s)"
  by (simp add: set_nick_def Let_def)

lemma consistent_set_nick:
  assumes c: "consistent s" and tk: "token nn"
    and fr: "lower nn \<notin> set (map (\<lambda>(n, _). lower n) (nick_to_writer s))"
  shows "consistent (set_nick w nn s)"
proof -
  let ?s' = "set_nick w nn s"
  let ?d = "case clients_get s w of
          Some old \<Rightarrow> if old \<noteq> [] then AList.delete old (nick_to_writer s) else nick_to_writer s
        | None \<Rightarrow> nick_to_writer s"
  from c have d1: "distinct (map fst (clients s))"
    and d2: "distinct (map (\<lambda>(n, _). lower n) (nick_to_writer s))"
    and a: "\<And>n c. map_of (nick_to_writer s) n = Some c \<Longrightarrow> map_of (clients s) c = Some (Some n) \<and> token n"
    and b: "\<And>c n. map_of (clients s) c = Some (Some n) \<Longrightarrow> map_of (nick_to_writer s) n = Some c"
    unfolding consistent_iff by blast+
  have nd: "nick_to_writer ?s' = AList.update nn w ?d" by (rule nick_set_nick)
  have dd: "distinct (map (\<lambda>(n, _). lower n) ?d)"
    using d2 by (simp add: distinct_lower_delete split: option.splits)
  have fd: "lower nn \<notin> set (map (\<lambda>(n, _). lower n) ?d)"
    using fr lower_fresh_delete[OF fr] by (simp split: option.splits)
  have sub: "map_of ?d n = Some c \<Longrightarrow> map_of (nick_to_writer s) n = Some c" for n c
    by (auto simp: delete_conv' split: option.splits if_splits)
  have nfresh: "map_of (nick_to_writer s) nn = None"
    using lower_fresh_key[OF fr] by (simp add: map_of_eq_None_iff)
  have e1: "distinct (map fst (clients ?s'))" using d1 by (simp add: distinct_update)
  have e2: "distinct (map (\<lambda>(n, _). lower n) (nick_to_writer ?s'))"
    unfolding nd using dd fd by (rule distinct_lower_update)
  have e3: "map_of (clients ?s') c = Some (Some n) \<and> token n"
    if h: "map_of (nick_to_writer ?s') n = Some c" for n c
  proof (cases "n = nn")
    case True
    with h tk show ?thesis by (simp add: nd update_conv')
  next
    case False
    with h have hd: "map_of ?d n = Some c" by (simp add: nd update_conv')
    from a[OF sub[OF hd]] have cn: "map_of (clients s) c = Some (Some n)" and t: "token n"
      by simp_all
    have "c \<noteq> w"
    proof
      assume "c = w"
      with cn have "clients_get s w = Some n" by (simp add: clients_get_def)
      with hd t show False by (simp add: delete_conv' token_def)
    qed
    with cn t show ?thesis by (simp add: update_conv')
  qed
  have e4: "map_of (nick_to_writer ?s') n = Some c"
    if h: "map_of (clients ?s') c = Some (Some n)" for n c
  proof (cases "c = w")
    case True
    with h show ?thesis by (simp add: nick_set_nick update_conv')
  next
    case False
    with h have cn: "map_of (clients s) c = Some (Some n)" by (simp add: update_conv')
    from b[OF cn] have n: "map_of (nick_to_writer s) n = Some c" .
    with nfresh have nn: "n \<noteq> nn" by auto
    have "m \<noteq> n" if m: "clients_get s w = Some m" for m
    proof
      assume "m = n"
      with m have "map_of (clients s) w = Some (Some n)"
        by (auto simp: clients_get_def split: option.splits)
      from b[OF this] n False show False by simp
    qed
    with n have "map_of ?d n = Some c"
      by (auto simp: delete_conv' split: option.splits)
    with nn show ?thesis by (simp add: nd update_conv')
  qed
  from e3 have E3: "\<forall>n c. map_of (nick_to_writer ?s') n = Some c \<longrightarrow>
      map_of (clients ?s') c = Some (Some n) \<and> token n" by blast
  from e4 have E4: "\<forall>c n. map_of (clients ?s') c = Some (Some n) \<longrightarrow>
      map_of (nick_to_writer ?s') n = Some c" by blast
  show ?thesis by (subst consistent_iff) (intro conjI e1 e2 E3 E4)
qed

lemma consistent_sent [simp]: "consistent (s\<lparr>sent := x\<rparr>) = consistent s"
  by (rule consistent_cong) simp_all

lemma consistent_env [simp]: "consistent (s\<lparr>broken := b, clock := c\<rparr>) = consistent s"
  by (rule consistent_cong) simp_all

lemma consistent_send_line: "consistent s \<Longrightarrow> consistent (send_line w t s)"
  by (simp add: send_line_def write_drain_def consistent_recursion(1))

lemma consistent_safe_send: "consistent s \<Longrightarrow> consistent (safe_send w t s)"
  by (simp add: safe_send_def write_drain_def)

lemma consistent_announce_join: "consistent s \<Longrightarrow> consistent (announce_join w n s)"
  by (simp add: announce_join_def consistent_recursion(2) consistent_send_line)

lemma consistent_cmd_nick:
  assumes c: "consistent s" and tk: "\<And>a rest. args = a # rest \<Longrightarrow> token a"
  shows "consistent (state_of (cmd_nick w args s))"
proof (cases args)
  case Nil
  with c show ?thesis by (simp add: cmd_nick_def consistent_send_line)
next
  case (Cons a rest)
  from tk[OF Cons] have t: "token a" .
  then have st: "strip a = a" and ne: "a \<noteq> []" and sp: "CHR '' '' \<notin> set a"
    by (simp_all add: strip_token token_no_space token_def)
  show ?thesis
  proof (cases "lower a \<in> set (map (\<lambda>(n, _). lower n) (nick_to_writer s))")
    case True
    with Cons st ne sp c show ?thesis
      by (simp add: cmd_nick_def write_drain_def)
  next
    case False
    from c t False have "consistent (set_nick w a s)" by (rule consistent_set_nick)
    with Cons st ne sp False show ?thesis
      by (simp add: cmd_nick_def consistent_announce_join consistent_recursion(2)
            split: option.splits)
  qed
qed

lemma consistent_cmd_list: "consistent s \<Longrightarrow> consistent (cmd_list w s)"
  by (simp add: cmd_list_def Let_def consistent_send_line)

lemma consistent_cmd_msg: "consistent s \<Longrightarrow> consistent (cmd_msg w args s)"
  by (simp add: cmd_msg_def consistent_send_line consistent_safe_send
        split: list.splits option.splits)

lemma consistent_cmd_me: "consistent s \<Longrightarrow> consistent (cmd_me w args s)"
  by (simp add: cmd_me_def consistent_send_line consistent_recursion(2)
        split: list.splits option.splits)

lemma consistent_handle_chat: "consistent s \<Longrightarrow> consistent (handle_chat w t s)"
  by (simp add: handle_chat_def consistent_send_line consistent_recursion(2)
        split: option.splits)

lemma consistent_handle_command:
  assumes "consistent s"
  shows "consistent (state_of (handle_command w line s))"
proof (cases "split_ws 2 line")
  case Nil
  with assms show ?thesis by (simp add: handle_command_def)
next
  case (Cons p args)
  have "token a" if "args = a # rest" for a rest
    using split_ws_args(2)[of line p a rest] Cons that by simp
  with assms have "consistent (state_of (cmd_nick w args s))"
    by (rule consistent_cmd_nick)
  with assms Cons show ?thesis
    by (simp add: handle_command_def Let_def consistent_send_line consistent_recursion(1)
          consistent_cmd_list consistent_cmd_msg consistent_cmd_me)
qed

lemma consistent_handle_line:
  assumes "consistent s"
  shows "consistent (state_of (handle_line w line s))"
proof -
  from assms have c: "consistent (state_of (handle_command w line s))"
    by (rule consistent_handle_command)
  show ?thesis
  proof (cases "handle_command w line s")
    case (Return s')
    with c assms show ?thesis by (simp add: handle_line_def consistent_handle_chat)
  next
    case (Raise s')
    with c assms show ?thesis
      by (simp add: handle_line_def consistent_handle_chat consistent_recursion(1))
  next
    case (Deadlock s')
    with c assms show ?thesis by (simp add: handle_line_def consistent_handle_chat)
  qed
qed

lemma consistent_accept:
  assumes c: "consistent s" and h: "\<not> held s w"
  shows "consistent (accept w s)"
proof -
  let ?s' = "s\<lparr>clients := AList.update w None (clients s)\<rparr>"
  from c have d1: "distinct (map fst (clients s))"
    and d2: "distinct (map (\<lambda>(n, _). lower n) (nick_to_writer s))"
    and a: "\<And>n c. map_of (nick_to_writer s) n = Some c \<Longrightarrow> map_of (clients s) c = Some (Some n) \<and> token n"
    and b: "\<And>c n. map_of (clients s) c = Some (Some n) \<Longrightarrow> map_of (nick_to_writer s) n = Some c"
    unfolding consistent_iff by blast+
  from h have nw: "map_of (nick_to_writer s) n \<noteq> Some w" for n
    by (auto simp: held_def dest!: map_of_SomeD) force
  have e1: "distinct (map fst (clients ?s'))" using d1 by (simp add: distinct_update)
  have e2: "distinct (map (\<lambda>(n, _). lower n) (nick_to_writer ?s'))" using d2 by simp
  have E3: "\<forall>n c. map_of (nick_to_writer ?s') n = Some c \<longrightarrow>
      map_of (clients ?s') c = Some (Some n) \<and> token n"
    using a nw by (auto simp: update_conv')
  have E4: "\<forall>c n. map_of (clients ?s') c = Some (Some n) \<longrightarrow>
      map_of (nick_to_writer ?s') n = Some c"
    using b by (auto simp: update_conv' split: if_splits)
  have "consistent ?s'" by (subst consistent_iff) (intro conjI e1 e2 E3 E4)
  then show ?thesis by (simp add: accept_def consistent_send_line)
qed

lemma consistent_step: "consistent s \<Longrightarrow> consistent (state_of (step e s))"
  by (cases e) (simp_all add: consistent_accept consistent_handle_line consistent_recursion(1))

lemma consistent_run: "consistent s \<Longrightarrow> consistent (state_of (run evs s))"
proof (induction evs arbitrary: s)
  case Nil
  then show ?case by simp
next
  case (Cons e evs)
  from Cons.prems have c: "consistent (state_of (step e s))" by (rule consistent_step)
  show ?case
  proof (cases "step e s")
    case (Return s')
    with c Cons.IH[of s'] show ?thesis by simp
  next
    case (Raise s')
    with c show ?thesis by simp
  next
    case (Deadlock s')
    with c show ?thesis by simp
  qed
qed

lemma consistent_init: "consistent (init b c)"
  by (simp add: consistent_def init_def)

lemma consistent_final: "consistent (final evs b c)"
  unfolding final_def using consistent_init by (rule consistent_run)

lemma consistent_one_owner:
  assumes "consistent s" and "(n1, c1) \<in> set (nick_to_writer s)"
    and "(n2, c2) \<in> set (nick_to_writer s)" and "lower n1 = lower n2"
  shows "n1 = n2 \<and> c1 = c2"
proof -
  from assms(1) have "distinct (map (\<lambda>(n, _). lower n) (nick_to_writer s))"
    by (simp add: consistent_def)
  then have "inj_on (\<lambda>(n, _). lower n) (set (nick_to_writer s))"
    by (simp add: distinct_map)
  from inj_onD[OF this _ assms(2,3)] assms(4) show ?thesis by simp
qed

lemma consistent_named_iff:
  assumes "consistent s"
  shows "clients_get s w = Some n \<longleftrightarrow> (n, w) \<in> set (nick_to_writer s)"
proof -
  from assms have d3: "distinct (map fst (nick_to_writer s))"
    by (simp add: consistent_def distinct_lower_keys)
  from assms have a: "\<And>n c. map_of (nick_to_writer s) n = Some c \<Longrightarrow> map_of (clients s) c = Some (Some n)"
    and b: "\<And>c n. map_of (clients s) c = Some (Some n) \<Longrightarrow> map_of (nick_to_writer s) n = Some c"
    unfolding consistent_iff by blast+
  have "clients_get s w = Some n \<longleftrightarrow> map_of (clients s) w = Some (Some n)"
    by (auto simp: clients_get_def split: option.splits)
  also have "\<dots> \<longleftrightarrow> map_of (nick_to_writer s) n = Some w" using a b by blast
  also have "\<dots> \<longleftrightarrow> (n, w) \<in> set (nick_to_writer s)" using d3 by simp
  finally show ?thesis .
qed

lemma distinct_singleton_set:
  assumes "distinct xs" and "set xs = {x}"
  shows "xs = [x]"
proof (cases xs)
  case Nil
  with assms(2) show ?thesis by simp
next
  case (Cons y ys)
  with assms(2) have y: "y = x" by auto
  have "ys = []"
  proof (cases ys)
    case Nil
    then show ?thesis .
  next
    case (Cons z zs)
    with assms \<open>xs = y # ys\<close> y show ?thesis by auto
  qed
  with Cons y show ?thesis by simp
qed

subsection \<open>The registry and the directory in every reachable state\<close>

text \<open>
  Claim C1. After every sequence of events from the start of the server (connections
  accepted, lines handled, among them every \<^verbatim>\<open>/nick\<close>, and disconnects for any
  reason, with any writers failing), where each handler runs uninterrupted: no two
  entries of the directory with different writers have names equal up to case; a
  writer has a nickname in the registry exactly when the directory has an entry
  pointing to it; and then that entry is the only one, under that nickname.
\<close>

theorem directory_never_shared:
  "(\<forall>n1 c1 n2 c2. (n1, c1) \<in> set (nick_to_writer (final evs b c)) \<and>
        (n2, c2) \<in> set (nick_to_writer (final evs b c)) \<and> lower n1 = lower n2 \<longrightarrow> c1 = c2) \<and>
   (\<forall>w. clients_get (final evs b c) w \<noteq> None \<longleftrightarrow> w \<in> snd ` set (nick_to_writer (final evs b c))) \<and>
   (\<forall>w n. clients_get (final evs b c) w = Some n \<longrightarrow>
        filter (\<lambda>(m, c'). c' = w) (nick_to_writer (final evs b c)) = [(n, w)])"
proof -
  let ?s = "final evs b c"
  have c: "consistent ?s" by (rule consistent_final)
  have 1: "\<forall>n1 c1 n2 c2. (n1, c1) \<in> set (nick_to_writer ?s) \<and>
        (n2, c2) \<in> set (nick_to_writer ?s) \<and> lower n1 = lower n2 \<longrightarrow> c1 = c2"
    using consistent_one_owner[OF c] by blast
  have 2: "\<forall>w. clients_get ?s w \<noteq> None \<longleftrightarrow> w \<in> snd ` set (nick_to_writer ?s)"
    using consistent_named_iff[OF c] by force
  have 3: "filter (\<lambda>(m, c'). c' = w) (nick_to_writer ?s) = [(n, w)]"
    if h: "clients_get ?s w = Some n" for w n
  proof -
    let ?f = "filter (\<lambda>(m, c'). c' = w) (nick_to_writer ?s)"
    from c have "distinct (map fst (nick_to_writer ?s))"
      by (simp add: consistent_def distinct_lower_keys)
    then have "distinct (nick_to_writer ?s)" by (simp add: distinct_map)
    then have d: "distinct ?f" by simp
    have 1: "a = n" if "(a, w) \<in> set (nick_to_writer ?s)" for a
      using consistent_named_iff[OF c, of w a] h that by simp
    have 2: "(n, w) \<in> set (nick_to_writer ?s)"
      using consistent_named_iff[OF c, of w n] h by simp
    have "set ?f = {(n, w)}"
    proof (rule set_eqI)
      fix x :: "string \<times> conn"
      obtain a c' where x: "x = (a, c')" by (cases x)
      have "((a, c') \<in> set (nick_to_writer ?s) \<and> c' = w) = (a = n \<and> c' = w)"
        using 1[of a] 2 by blast
      then show "x \<in> set ?f \<longleftrightarrow> x \<in> {(n, w)}" unfolding x by simp
    qed
    with d show ?thesis by (rule distinct_singleton_set)
  qed
  from 1 2 3 show ?thesis by blast
qed

theorem directory_never_shared_witness:
  "clients_get (final [Accept 1, Recv 1 ''/nick alice'', Accept 2, Recv 2 ''/nick ALICE'',
       Recv 2 ''/nick bob'', Recv 1 ''/nick al'', Drop 2 ''client closed''] {} ''12:00'') 1 = Some ''al'' \<and>
   filter (\<lambda>(m, c'). c' = 1)
     (nick_to_writer (final [Accept 1, Recv 1 ''/nick alice'', Accept 2, Recv 2 ''/nick ALICE'',
       Recv 2 ''/nick bob'', Recv 1 ''/nick al'', Drop 2 ''client closed''] {} ''12:00'')) = [(''al'', 1)] \<and>
   1 \<in> snd ` set (nick_to_writer (final [Accept 1, Recv 1 ''/nick alice'', Accept 2,
       Recv 2 ''/nick ALICE'', Recv 2 ''/nick bob'', Recv 1 ''/nick al'', Drop 2 ''client closed''] {} ''12:00''))"
proof -
  let ?s = "final [Accept 1, Recv 1 ''/nick alice'', Accept 2, Recv 2 ''/nick ALICE'',
       Recv 2 ''/nick bob'', Recv 1 ''/nick al'', Drop 2 ''client closed''] {} ''12:00''"
  have g: "clients_get ?s 1 = Some ''al''" by code_simp
  note t = directory_never_shared[of "[Accept 1, Recv 1 ''/nick alice'', Accept 2,
       Recv 2 ''/nick ALICE'', Recv 2 ''/nick bob'', Recv 1 ''/nick al'', Drop 2 ''client closed'']" "{}" "''12:00''"]
  from t g have "filter (\<lambda>(m, c'). c' = 1) (nick_to_writer ?s) = [(''al'', 1)]" by blast
  moreover from t g have "1 \<in> snd ` set (nick_to_writer ?s)" by auto
  ultimately show ?thesis using g by simp
qed

subsection \<open>Lower case and whitespace\<close>

lemma isspace_iff:
  "isspace c \<longleftrightarrow> (of_char c :: nat) \<in> {9, 10, 11, 12, 13, 28, 29, 30, 31, 32, 133, 160}"
proof -
  have e: "(c = d) = ((of_char c :: nat) = of_char d)" for d by simp
  have "isspace c \<longleftrightarrow> (of_char c :: nat) \<in> of_char ` set [CHR 0x09, CHR 0x0A, CHR 0x0B, CHR 0x0C,
     CHR 0x0D, CHR 0x1C, CHR 0x1D, CHR 0x1E, CHR 0x1F, CHR 0x20, CHR 0x85, CHR 0xA0]"
    unfolding isspace_def by (simp only: inj_image_mem_iff[OF inj_of_char])
  then show ?thesis by simp
qed

lemma isspace_lower_char: "isspace (lower_char c) = isspace c"
proof -
  have b: "(of_char c :: nat) < 256" by simp
  show ?thesis
    unfolding isspace_iff lower_char_def Let_def using b
    by (auto simp: of_char_of take_bit_eq_mod)
qed

lemma token_lower: "token (lower a) = token a"
  by (simp add: token_def lower_def list_all_iff isspace_lower_char)

lemma consistent_token:
  assumes "consistent s" and "clients_get s w = Some n"
  shows "token n"
proof -
  from assms have "(n, w) \<in> set (nick_to_writer s)" by (simp add: consistent_named_iff)
  with assms(1) show ?thesis by (auto simp: consistent_def list_all_iff)
qed

lemma nick_dispatch:
  "split_ws 2 line = p # args \<Longrightarrow> lower p = ''/nick'' \<Longrightarrow>
     handle_command w line s = cmd_nick w args s"
  by (simp add: handle_command_def)

lemma cmd_nick_collision:
  assumes "token a" and "lower a \<in> set (map (\<lambda>(n, _). lower n) (nick_to_writer s))"
    and "w \<notin> broken s"
  shows "cmd_nick w (a # rest) s = Return (s\<lparr>sent := sent s @ [(w, taken_msg)]\<rparr>)"
  using assms
  by (simp add: cmd_nick_def strip_token token_no_space write_drain_def token_def)

lemma token_dropWhile_word: "token a \<Longrightarrow> dropWhile (\<lambda>c. \<not> isspace c) a = []"
  by (simp add: token_def list_all_iff)

lemma split_nick_line:
  assumes "token m"
  shows "split_ws 2 (''/nick '' @ m) = [''/nick'', m]"
proof -
  from assms have "m \<noteq> []" by (simp add: token_def)
  with assms show ?thesis
    by (simp add: numeral_2_eq_2 isspace_def[of "CHR ''/''"] isspace_def[of "CHR ''n''"]
          isspace_def[of "CHR ''i''"] isspace_def[of "CHR ''c''"] isspace_def[of "CHR ''k''"]
          space_isspace token_dropWhile token_takeWhile token_dropWhile_word Let_def)
qed

lemma lower_nick: "lower ''/nick'' = ''/nick''"
  by (simp add: lower_def lower_char_def)

subsection \<open>A nickname that is taken\<close>

text \<open>
  Claim C2. When a connection whose writes succeed sends a \<^verbatim>\<open>/nick\<close> line whose name is,
  up to case, a name of the directory, the command returns, and all it has done is send
  the line \<^verbatim>\<open>Nickname already in use. Try another.\<close> to the issuer: the registry and the
  directory are unchanged (the issuer keeps the nickname it had, or none), and no writer
  was closed.
\<close>

theorem taken_name_rejected:
  assumes "split_ws 2 line = p # a # rest" and "lower p = ''/nick''"
    and "lower a \<in> set (map (\<lambda>(n, _). lower n) (nick_to_writer s))"
    and "w \<notin> broken s"
  shows "handle_command w line s =
           Return (s\<lparr>sent := sent s @ [(w, ''Nickname already in use. Try another.\<newline>'')]\<rparr>)"
proof -
  from assms(1) have "token a" by (rule split_ws_args(2))
  from cmd_nick_collision[OF this assms(3,4)] nick_dispatch[OF assms(1,2)]
  show ?thesis by (simp add: taken_msg_def)
qed

theorem taken_name_rejected_witness:
  "handle_command 2 ''/nick Alice''
     \<lparr>clients = [(1, Some ''alice''), (2, None)], nick_to_writer = [(''alice'', 1)],
      sent = [], closed = {}, broken = {}, clock = ''12:00''\<rparr> =
   Return \<lparr>clients = [(1, Some ''alice''), (2, None)], nick_to_writer = [(''alice'', 1)],
      sent = [(2, ''Nickname already in use. Try another.\<newline>'')], closed = {}, broken = {},
      clock = ''12:00''\<rparr>"
proof -
  have 1: "split_ws 2 ''/nick Alice'' = ''/nick'' # ''Alice'' # []" by code_simp
  have 2: "lower ''/nick'' = ''/nick''" by code_simp
  have 3: "lower ''Alice'' \<in> set (map (\<lambda>(n, _). lower n) (nick_to_writer
     \<lparr>clients = [(1, Some ''alice''), (2, None)], nick_to_writer = [(''alice'', 1)],
      sent = [], closed = {}, broken = {}, clock = ''12:00''\<rparr>))" by code_simp
  have 4: "2 \<notin> broken \<lparr>clients = [(1, Some ''alice''), (2, None)], nick_to_writer = [(''alice'', 1)],
      sent = [], closed = {}, broken = {}, clock = ''12:00''\<rparr>" by simp
  from taken_name_rejected[OF 1 2 3 4] show ?thesis by simp
qed

subsection \<open>The issuer's own nickname\<close>

text \<open>
  Claim C10. In a state where the dictionaries agree, a connection whose nickname is \<open>n\<close>
  and whose writes succeed, sending \<^verbatim>\<open>/nick m\<close> with \<open>m\<close> equal to \<open>n\<close> up to case (or
  equal to \<open>n\<close>), gets the name-taken line and nothing else changes: the check against
  the directory meets the issuer's own entry.
\<close>

theorem own_name_rejected:
  assumes "consistent s" and "clients_get s w = Some n" and "lower m = lower n"
    and "w \<notin> broken s"
  shows "handle_command w (''/nick '' @ m) s =
           Return (s\<lparr>sent := sent s @ [(w, ''Nickname already in use. Try another.\<newline>'')]\<rparr>)"
proof -
  from assms(1,2) have "token n" by (rule consistent_token)
  with assms(3) have tm: "token m" using token_lower[of m] token_lower[of n] by simp
  from assms(1,2) have "(n, w) \<in> set (nick_to_writer s)"
    by (simp add: consistent_named_iff)
  then have "lower n \<in> set (map (\<lambda>(n, _). lower n) (nick_to_writer s))" by force
  with assms(3) have "lower m \<in> set (map (\<lambda>(n, _). lower n) (nick_to_writer s))" by simp
  from cmd_nick_collision[OF tm this assms(4)]
    nick_dispatch[OF split_nick_line[OF tm] lower_nick]
  show ?thesis by (simp add: taken_msg_def)
qed

theorem own_name_rejected_witness:
  "handle_command 1 ''/nick ALICE''
     \<lparr>clients = [(1, Some ''alice'')], nick_to_writer = [(''alice'', 1)],
      sent = [], closed = {}, broken = {}, clock = ''12:00''\<rparr> =
   Return \<lparr>clients = [(1, Some ''alice'')], nick_to_writer = [(''alice'', 1)],
      sent = [(1, ''Nickname already in use. Try another.\<newline>'')], closed = {}, broken = {},
      clock = ''12:00''\<rparr>"
proof -
  let ?s = "\<lparr>clients = [(1, Some ''alice'')], nick_to_writer = [(''alice'', 1)],
      sent = [], closed = {}, broken = {}, clock = ''12:00''\<rparr>"
  have 1: "consistent ?s" by code_simp
  have 2: "clients_get ?s 1 = Some ''alice''" by code_simp
  have 3: "lower ''ALICE'' = lower ''alice''" by code_simp
  have 4: "1 \<notin> broken ?s" by simp
  from own_name_rejected[OF 1 2 3 4] show ?thesis by simp
qed

subsection \<open>A private message to nobody\<close>

text \<open>
  Claim C6. When a sender that has a nickname and whose writes succeed sends
  \<^verbatim>\<open>/msg target text\<close> and \<open>target\<close> is no key of the directory, the command returns and
  all it has done is send one line, \<^verbatim>\<open>User 'target' not found.\<close>, to the sender: the
  registry and the directory are unchanged and nothing was sent to anyone else.
\<close>

theorem msg_to_unknown_user:
  assumes "split_ws 2 line = p # target # body # rest" and "lower p = ''/msg''"
    and "clients_get s w = Some sender" and "sender \<noteq> []"
    and "target \<notin> fst ` set (nick_to_writer s)"
    and "w \<notin> broken s"
  shows "handle_command w line s =
           Return (s\<lparr>sent := sent s @
             [(w, ''User '' @ [CHR 0x27] @ target @ [CHR 0x27] @ '' not found.\<newline>'')]\<rparr>)"
proof -
  from assms(5) have "map_of (nick_to_writer s) target = None"
    by (simp add: map_of_eq_None_iff)
  with assms show ?thesis
    by (simp add: handle_command_def cmd_msg_def send_line_def write_drain_def)
qed

theorem msg_to_unknown_user_witness:
  "handle_command 1 ''/msg ghost are you there''
     \<lparr>clients = [(1, Some ''alice''), (2, Some ''bob'')],
      nick_to_writer = [(''alice'', 1), (''bob'', 2)],
      sent = [], closed = {}, broken = {}, clock = ''12:00''\<rparr> =
   Return \<lparr>clients = [(1, Some ''alice''), (2, Some ''bob'')],
      nick_to_writer = [(''alice'', 1), (''bob'', 2)],
      sent = [(1, ''User '' @ [CHR 0x27] @ ''ghost'' @ [CHR 0x27] @ '' not found.\<newline>'')],
      closed = {}, broken = {}, clock = ''12:00''\<rparr>"
proof -
  let ?s = "\<lparr>clients = [(1, Some ''alice''), (2, Some ''bob'')],
      nick_to_writer = [(''alice'', 1), (''bob'', 2)],
      sent = [], closed = {}, broken = {}, clock = ''12:00''\<rparr>"
  have 1: "split_ws 2 ''/msg ghost are you there'' = ''/msg'' # ''ghost'' # ''are you there'' # []"
    by code_simp
  have 2: "lower ''/msg'' = ''/msg''" by code_simp
  have 3: "clients_get ?s 1 = Some ''alice''" by code_simp
  have 4: "''alice'' \<noteq> []" by simp
  have 5: "''ghost'' \<notin> fst ` set (nick_to_writer ?s)" by simp
  have 6: "1 \<notin> broken ?s" by simp
  from msg_to_unknown_user[OF 1 2 3 4 5 6] show ?thesis by simp
qed

subsection \<open>The list of users\<close>

lemma list_dispatch:
  "split_ws 2 line = p # args \<Longrightarrow> lower p = ''/list'' \<Longrightarrow>
     handle_command w line s = Return (cmd_list w s)"
  by (simp add: handle_command_def)

lemma consistent_count:
  assumes "consistent s"
  shows "length (nick_to_writer s) = length (filter (\<lambda>(c, v). v \<noteq> None) (clients s))"
proof -
  let ?f = "\<lambda>(n, c). (c, Some n)"
  from assms have d1: "distinct (map fst (clients s))"
    and d3: "distinct (map fst (nick_to_writer s))"
    by (simp_all add: consistent_def distinct_lower_keys)
  from assms have a: "\<And>n c. map_of (nick_to_writer s) n = Some c \<Longrightarrow> map_of (clients s) c = Some (Some n)"
    and b: "\<And>c n. map_of (clients s) c = Some (Some n) \<Longrightarrow> map_of (nick_to_writer s) n = Some c"
    unfolding consistent_iff by blast+
  have m1: "(c, Some n) \<in> set (clients s) \<longleftrightarrow> map_of (clients s) c = Some (Some n)" for c n
    using d1 by simp
  have m2: "(n, c) \<in> set (nick_to_writer s) \<longleftrightarrow> map_of (nick_to_writer s) n = Some c" for c n
    using d3 by simp
  have e: "(c, Some n) \<in> set (clients s) \<longleftrightarrow> (n, c) \<in> set (nick_to_writer s)" for c n
    unfolding m1 m2 using a b by blast
  from d3 have "distinct (nick_to_writer s)" by (simp add: distinct_map)
  moreover have "inj_on ?f (set (nick_to_writer s))" by (auto simp: inj_on_def)
  ultimately have dl: "distinct (map ?f (nick_to_writer s))"
    by (simp only: distinct_map simp_thms)
  from d1 have "distinct (clients s)" by (simp add: distinct_map)
  then have dr: "distinct (filter (\<lambda>(c, v). v \<noteq> None) (clients s))" by simp
  have "set (map ?f (nick_to_writer s)) = set (filter (\<lambda>(c, v). v \<noteq> None) (clients s))"
  proof (rule set_eqI)
    fix x :: "conn \<times> string option"
    obtain c v where x: "x = (c, v)" by (cases x)
    show "x \<in> set (map ?f (nick_to_writer s)) \<longleftrightarrow>
          x \<in> set (filter (\<lambda>(c, v). v \<noteq> None) (clients s))"
    proof (cases v)
      case None
      with x show ?thesis by auto
    next
      case (Some n)
      have "(c, Some n) \<in> ?f ` set (nick_to_writer s) \<longleftrightarrow> (n, c) \<in> set (nick_to_writer s)"
        by force
      with Some x e[of c n] show ?thesis by simp
    qed
  qed
  then have "card (set (map ?f (nick_to_writer s))) =
             card (set (filter (\<lambda>(c, v). v \<noteq> None) (clients s)))" by simp
  with dl dr have "length (map ?f (nick_to_writer s)) =
             length (filter (\<lambda>(c, v). v \<noteq> None) (clients s))"
    by (simp only: distinct_card)
  then show ?thesis by simp
qed

text \<open>
  Claim C7. In a state where the dictionaries agree, \<^verbatim>\<open>/list\<close> from a connection whose
  writes succeed sends it one line, \<^verbatim>\<open>Users (k): a, b, ...\<close>: the names are those of the
  directory, each as often as there, in an order sorted by their lower-case forms, joined
  by comma and space, and \<open>k\<close> is the decimal of their number, which is the number of
  registered connections with a nickname.
\<close>

theorem list_reply:
  assumes "consistent s" and "split_ws 2 line = p # args" and "lower p = ''/list''"
    and "w \<notin> broken s"
  shows "\<exists>users.
     handle_command w line s =
       Return (s\<lparr>sent := sent s @
         [(w, ''Users ('' @ show_nat (length users) @ ''): '' @ join '', '' users @ ''\<newline>'')]\<rparr>) \<and>
     sorted (map lower users) \<and>
     mset users = mset (map fst (nick_to_writer s)) \<and>
     length users = length (filter (\<lambda>(c, v). v \<noteq> None) (clients s))"
proof (intro exI conjI)
  let ?users = "sort_key lower (map fst (nick_to_writer s))"
  show "handle_command w line s =
       Return (s\<lparr>sent := sent s @
         [(w, ''Users ('' @ show_nat (length ?users) @ ''): '' @ join '', '' ?users @ ''\<newline>'')]\<rparr>)"
    using assms(4) list_dispatch[OF assms(2,3)]
    by (simp add: cmd_list_def send_line_def write_drain_def Let_def)
  show "sorted (map lower ?users)" by (rule sorted_sort_key)
  show "mset ?users = mset (map fst (nick_to_writer s))" by simp
  show "length ?users = length (filter (\<lambda>(c, v). v \<noteq> None) (clients s))"
    using consistent_count[OF assms(1)] by simp
qed

theorem list_reply_witness:
  "handle_command 3 ''/list''
     \<lparr>clients = [(1, Some ''bob''), (2, Some ''Alice''), (3, None)],
      nick_to_writer = [(''bob'', 1), (''Alice'', 2)],
      sent = [], closed = {}, broken = {}, clock = ''12:00''\<rparr> =
   Return \<lparr>clients = [(1, Some ''bob''), (2, Some ''Alice''), (3, None)],
      nick_to_writer = [(''bob'', 1), (''Alice'', 2)],
      sent = [(3, ''Users (2): Alice, bob\<newline>'')], closed = {}, broken = {}, clock = ''12:00''\<rparr>"
proof -
  let ?s = "\<lparr>clients = [(1, Some ''bob''), (2, Some ''Alice''), (3, None)],
      nick_to_writer = [(''bob'', 1), (''Alice'', 2)],
      sent = [], closed = {}, broken = {}, clock = ''12:00''\<rparr>"
  have 1: "consistent ?s" by code_simp
  have 2: "split_ws 2 ''/list'' = ''/list'' # []" by code_simp
  have 3: "lower ''/list'' = ''/list''" by code_simp
  have 4: "3 \<notin> broken ?s" by simp
  from list_reply[OF 1 2 3 4] obtain users where
    "handle_command 3 ''/list'' ?s = Return (?s\<lparr>sent := sent ?s @
         [(3, ''Users ('' @ show_nat (length users) @ ''): '' @ join '', '' users @ ''\<newline>'')]\<rparr>)"
    by blast
  moreover have "handle_command 3 ''/list'' ?s = Return \<lparr>clients = [(1, Some ''bob''), (2, Some ''Alice''), (3, None)],
      nick_to_writer = [(''bob'', 1), (''Alice'', 2)],
      sent = [(3, ''Users (2): Alice, bob\<newline>'')], closed = {}, broken = {}, clock = ''12:00''\<rparr>"
    by code_simp
  ultimately show ?thesis by simp
qed

subsection \<open>Around the claims on /nick\<close>

text \<open>
  A \<^verbatim>\<open>/nick\<close> line with no name, or with whitespace only after the command, gets the
  usage line, and nothing else changes.
\<close>

lemma nick_without_name:
  assumes "split_ws 2 line = [p]" and "lower p = ''/nick''" and "w \<notin> broken s"
  shows "handle_command w line s =
           Return (s\<lparr>sent := sent s @ [(w, ''Usage: /nick <name>\<newline>'')]\<rparr>)"
  using assms nick_dispatch[OF assms(1,2), of w s]
  by (simp add: cmd_nick_def send_line_def write_drain_def)

lemma nick_blank_line: "split_ws 2 ''/nick   '' = [''/nick'']"
  by code_simp

text \<open>
  The name of a \<^verbatim>\<open>/nick\<close> line is a word of the split line, so the test for a space in
  it fails on every line: with a free name and a writer whose writes succeed, the words
  after the name change nothing.
\<close>

lemma nick_ignores_rest:
  assumes "split_ws 2 line = p # a # rest" and "lower p = ''/nick''"
  shows "handle_command w line s = cmd_nick w [a] s"
proof -
  from assms(1) have "token a" by (rule split_ws_args(2))
  then have "strip a = a" "a \<noteq> []" "CHR '' '' \<notin> set a"
    by (simp_all add: strip_token token_no_space token_def)
  then have "cmd_nick w (a # rest) s = cmd_nick w [a] s"
    by (simp add: cmd_nick_def)
  with nick_dispatch[OF assms, of w s] show ?thesis by simp
qed

text \<open>
  The rejection of a taken name is sent with the lock held. When that write raises, the
  handler never returns.
\<close>

lemma taken_name_write_fails:
  assumes "split_ws 2 line = p # a # rest" and "lower p = ''/nick''"
    and "lower a \<in> set (map (\<lambda>(n, _). lower n) (nick_to_writer s))"
    and "w \<in> broken s"
  shows "handle_command w line s = Deadlock s"
proof -
  from assms(1) have "token a" by (rule split_ws_args(2))
  then have "strip a = a" "a \<noteq> []" "CHR '' '' \<notin> set a"
    by (simp_all add: strip_token token_no_space token_def)
  with assms(3,4) have "cmd_nick w (a # rest) s = Deadlock s"
    by (simp add: cmd_nick_def write_drain_def)
  with nick_dispatch[OF assms(1,2), of w s] show ?thesis by simp
qed

subsection \<open>A name with a space\<close>

text \<open>
  Claim C3 says that \<^verbatim>\<open>/nick foo bar\<close> is rejected. It is not: \<^verbatim>\<open>split\<close> has already
  cut the line at every whitespace, the name is the word \<^verbatim>\<open>foo\<close>, the test for a space
  in it never succeeds, and the nickname \<^verbatim>\<open>foo\<close> is set.
\<close>

theorem nick_with_space_sets_first_word:
  "handle_line 1 ''/nick foo bar''
     \<lparr>clients = [(1, None)], nick_to_writer = [], sent = [], closed = {}, broken = {},
      clock = ''12:00''\<rparr> =
   Return \<lparr>clients = [(1, Some ''foo'')], nick_to_writer = [(''foo'', 1)],
      sent = [(1, ''OK. You are now '' @ [CHR 0x27] @ ''foo'' @ [CHR 0x27] @ ''.\<newline>'')],
      closed = {}, broken = {}, clock = ''12:00''\<rparr>"
  by code_simp

subsection \<open>What the recursion leaves alone\<close>

lemma env_drop_client [simp]:
  "broken (drop_client w name s) = broken s" "clock (drop_client w name s) = clock s"
  "sent (drop_client w name s) = sent s"
  by (simp_all add: drop_client_def Let_def split: option.splits)

lemma env_unchanged:
  "broken (disconnect w r s) = broken s \<and> clock (disconnect w r s) = clock s"
  "broken (broadcast t e s) = broken s \<and> clock (broadcast t e s) = clock s"
  "broken (disconnect_each ws s) = broken s \<and> clock (disconnect_each ws s) = clock s"
proof (induction w r s and t e s and ws s rule: disconnect_broadcast_disconnect_each.induct)
  case (1 writer reason s)
  show ?case
  proof (cases "clients_get s writer")
    case None
    then show ?thesis by (simp add: disconnect_unfold)
  next
    case (Some n)
    show ?thesis
    proof (cases "n = []")
      case True
      with Some show ?thesis by (simp add: disconnect_unfold)
    next
      case False
      from 1[OF refl refl Some False] Some False show ?thesis
        by (simp add: disconnect_unfold)
    qed
  qed
next
  case (2 msg excl s)
  from 2[OF refl refl] show ?case
    by (simp add: broadcast.simps broadcast_loop_eq)
next
  case (3 s)
  show ?case by simp
next
  case (4 w ws s)
  then show ?case by simp
qed

lemma disconnect_each_fold:
  "disconnect_each ws s = fold (\<lambda>w. disconnect w ''broken pipe'') ws s"
  by (induction ws arbitrary: s) simp_all

text \<open>Registered writers are only ever removed, and only the failing ones.\<close>

lemma filter_out_twice:
  "filter (\<lambda>(k, _). k \<notin> B) (filter (\<lambda>(k, _). k \<notin> A) xs) = filter (\<lambda>(k, _). k \<notin> A \<union> B) xs"
  by (induction xs) auto

lemma delete_as_filter: "AList.delete k xs = filter (\<lambda>(k', _). k' \<notin> {k}) xs"
  by (induction xs) auto

lemma only_removed:
  "\<exists>K. K \<subseteq> insert w (broken s) \<and>
        clients (disconnect w r s) = filter (\<lambda>(k, _). k \<notin> K) (clients s)"
  "\<exists>K. K \<subseteq> broken s \<and> clients (broadcast t e s) = filter (\<lambda>(k, _). k \<notin> K) (clients s)"
  "\<exists>K. K \<subseteq> set ws \<union> broken s \<and>
        clients (disconnect_each ws s) = filter (\<lambda>(k, _). k \<notin> K) (clients s)"
proof (induction w r s and t e s and ws s rule: disconnect_broadcast_disconnect_each.induct)
  case (1 writer reason s)
  have d: "AList.delete writer (clients s) = filter (\<lambda>(k, _). k \<notin> {writer}) (clients s)"
    by (rule delete_as_filter)
  show ?case
  proof (cases "clients_get s writer")
    case None
    then have "disconnect writer reason s = drop_client writer None s"
      by (simp add: disconnect_unfold)
    then have "clients (disconnect writer reason s) =
               filter (\<lambda>(k, _). k \<notin> {writer}) (clients s)"
      by (simp only: clients_drop_client d)
    then show ?thesis by (intro exI[of _ "{writer}"] conjI) simp_all
  next
    case (Some n)
    show ?thesis
    proof (cases "n = []")
      case True
      with Some have "disconnect writer reason s = drop_client writer (Some n) s"
        by (simp add: disconnect_unfold)
      then have "clients (disconnect writer reason s) =
                 filter (\<lambda>(k, _). k \<notin> {writer}) (clients s)"
        by (simp only: clients_drop_client d)
      then show ?thesis by (intro exI[of _ "{writer}"] conjI) simp_all
    next
      case False
      from 1[OF refl refl Some False] Some obtain K where
        K: "K \<subseteq> broken s"
        and c: "clients (broadcast (''* '' @ n @ '' left ('' @ reason @ '')'') {}
                  (drop_client writer (Some n) s)) =
                filter (\<lambda>(k, _). k \<notin> K) (AList.delete writer (clients s))"
        by auto
      have "{writer} \<union> K \<subseteq> insert writer (broken s)" using K by auto
      moreover have "disconnect writer reason s =
          broadcast (''* '' @ n @ '' left ('' @ reason @ '')'') {} (drop_client writer (Some n) s)"
        using Some False by (simp add: disconnect_unfold)
      then have "clients (disconnect writer reason s) =
                     filter (\<lambda>(k, _). k \<notin> {writer} \<union> K) (clients s)"
        by (simp only: c d filter_out_twice)
      ultimately show ?thesis by (intro exI[of _ "{writer} \<union> K"] conjI)
    qed
  qed
next
  case (2 msg excl s)
  from 2[OF refl refl] obtain K where
    "K \<subseteq> set (filter (\<lambda>w. w \<notin> excl \<and> w \<in> broken s) (map fst (clients s))) \<union> broken s"
    and "clients (broadcast msg excl s) = filter (\<lambda>(k, _). k \<notin> K) (clients s)"
    by (auto simp: broadcast.simps broadcast_loop_eq)
  then show ?case by (intro exI[of _ K] conjI) auto
next
  case (3 s)
  have "clients (disconnect_each [] s) = filter (\<lambda>(k, _). k \<notin> {}) (clients s)" by simp
  moreover have "{} \<subseteq> set [] \<union> broken s" by simp
  ultimately show ?case by (intro exI[of _ "{}"] conjI) simp_all
next
  case (4 w ws s)
  from 4(1) obtain K1 where K1: "K1 \<subseteq> insert w (broken s)"
    and c1: "clients (disconnect w ''broken pipe'' s) = filter (\<lambda>(k, _). k \<notin> K1) (clients s)"
    by blast
  from 4(2) obtain K2 where K2: "K2 \<subseteq> set ws \<union> broken (disconnect w ''broken pipe'' s)"
    and c2: "clients (disconnect_each ws (disconnect w ''broken pipe'' s)) =
             filter (\<lambda>(k, _). k \<notin> K2) (clients (disconnect w ''broken pipe'' s))"
    by blast
  from K1 K2 have "K1 \<union> K2 \<subseteq> set (w # ws) \<union> broken s"
    by (auto simp: env_unchanged)
  moreover have "clients (disconnect_each (w # ws) s) =
      filter (\<lambda>(k, _). k \<notin> K1 \<union> K2) (clients s)"
    unfolding disconnect_each.simps c2 c1 by (rule filter_out_twice)
  ultimately show ?case by (intro exI[of _ "K1 \<union> K2"] conjI)
qed

lemma map_of_filter_out:
  "k \<notin> K \<Longrightarrow> map_of (filter (\<lambda>(k, _). k \<notin> K) xs) k = map_of xs k"
  by (induction xs) auto

lemma working_stay:
  assumes "c \<notin> broken s"
  shows "c \<noteq> w \<Longrightarrow> map_of (clients (disconnect w r s)) c = map_of (clients s) c"
    and "map_of (clients (broadcast t e s)) c = map_of (clients s) c"
    and "c \<notin> set ws \<Longrightarrow> map_of (clients (disconnect_each ws s)) c = map_of (clients s) c"
proof -
  show "map_of (clients (disconnect w r s)) c = map_of (clients s) c" if "c \<noteq> w"
  proof -
    from only_removed(1)[of w s r] obtain K where "K \<subseteq> insert w (broken s)"
      and c: "clients (disconnect w r s) = filter (\<lambda>(k, _). k \<notin> K) (clients s)" by blast
    with assms that have "c \<notin> K" by auto
    then show ?thesis unfolding c by (rule map_of_filter_out)
  qed
  show "map_of (clients (broadcast t e s)) c = map_of (clients s) c"
  proof -
    from only_removed(2)[of s t e] obtain K where "K \<subseteq> broken s"
      and c: "clients (broadcast t e s) = filter (\<lambda>(k, _). k \<notin> K) (clients s)" by blast
    with assms have "c \<notin> K" by auto
    then show ?thesis unfolding c by (rule map_of_filter_out)
  qed
  show "map_of (clients (disconnect_each ws s)) c = map_of (clients s) c" if "c \<notin> set ws"
  proof -
    from only_removed(3)[of ws s] obtain K where "K \<subseteq> set ws \<union> broken s"
      and c: "clients (disconnect_each ws s) = filter (\<lambda>(k, _). k \<notin> K) (clients s)" by blast
    with assms that have "c \<notin> K" by auto
    then show ?thesis unfolding c by (rule map_of_filter_out)
  qed
qed

lemma sent_grows:
  "\<exists>xs. sent (disconnect w r s) = sent s @ xs"
  "\<exists>xs. sent (broadcast t e s) = sent s @ xs"
  "\<exists>xs. sent (disconnect_each ws s) = sent s @ xs"
proof (induction w r s and t e s and ws s rule: disconnect_broadcast_disconnect_each.induct)
  case (1 writer reason s)
  show ?case
  proof (cases "clients_get s writer")
    case None
    then show ?thesis by (simp add: disconnect_unfold)
  next
    case (Some n)
    show ?thesis
    proof (cases "n = []")
      case True
      with Some show ?thesis by (simp add: disconnect_unfold)
    next
      case False
      from 1[OF refl refl Some False] Some False show ?thesis
        by (simp add: disconnect_unfold)
    qed
  qed
next
  case (2 msg excl s)
  from 2[OF refl refl] show ?case
    by (auto simp: broadcast.simps broadcast_loop_eq)
next
  case (3 s)
  show ?case by simp
next
  case (4 w ws s)
  then show ?case by auto
qed

lemma disconnect_each_gone:
  "w \<in> set ws \<Longrightarrow>
     w \<notin> fst ` set (clients (disconnect_each ws s)) \<and> w \<in> closed (disconnect_each ws s)"
proof (induction ws arbitrary: s)
  case Nil
  then show ?case by simp
next
  case (Cons a ws)
  show ?case
  proof (cases "w \<in> set ws")
    case True
    from Cons.IH[OF True] show ?thesis by simp
  next
    case False
    with Cons.prems have [simp]: "a = w" by simp
    have "w \<notin> fst ` set (clients (disconnect w ''broken pipe'' s))"
      using keys_shrink(1)[of w "''broken pipe''" s] by blast
    moreover have "w \<in> closed (disconnect w ''broken pipe'' s)"
      using closed_grows(1)[of w s "''broken pipe''"] by blast
    ultimately show ?thesis
      using keys_shrink(3)[of ws "disconnect w ''broken pipe'' s"]
        closed_grows(3)[of "disconnect w ''broken pipe'' s" ws]
      by auto
  qed
qed

subsection \<open>What a broadcast does\<close>

text \<open>
  Claim C4. A broadcast first writes the line \<^verbatim>\<open>[HH:MM] text\<close> to every registered
  connection that is not excluded, in the order of the registry; the writes that succeed
  are the next lines sent. The connections whose write raised are then disconnected, one
  after the other, with reason \<^verbatim>\<open>broken pipe\<close>: at the end each of them is out of the
  registry and closed, and no connection whose writes succeed has been touched. The
  broadcast returns a state whatever writes fail: no failure leaves it as an exception.
\<close>

theorem broadcast_outcome:
  "(\<exists>rest. sent (broadcast t e s) =
       sent s @ map (\<lambda>w. (w, ''['' @ clock s @ ''] '' @ t @ ''\<newline>''))
                  (filter (\<lambda>w. w \<notin> e \<and> w \<notin> broken s) (map fst (clients s))) @ rest) \<and>
   broadcast t e s =
     fold (\<lambda>w. disconnect w ''broken pipe'')
       (filter (\<lambda>w. w \<notin> e \<and> w \<in> broken s) (map fst (clients s)))
       (s\<lparr>sent := sent s @ map (\<lambda>w. (w, ''['' @ clock s @ ''] '' @ t @ ''\<newline>''))
                  (filter (\<lambda>w. w \<notin> e \<and> w \<notin> broken s) (map fst (clients s)))\<rparr>) \<and>
   (\<forall>w \<in> fst ` set (clients s). w \<notin> e \<and> w \<in> broken s \<longrightarrow>
       w \<notin> fst ` set (clients (broadcast t e s)) \<and> w \<in> closed (broadcast t e s)) \<and>
   (\<forall>w. w \<notin> broken s \<longrightarrow> map_of (clients (broadcast t e s)) w = map_of (clients s) w)"
proof (intro conjI)
  let ?line = "''['' @ clock s @ ''] '' @ t @ ''\<newline>''"
  let ?dead = "filter (\<lambda>w. w \<notin> e \<and> w \<in> broken s) (map fst (clients s))"
  let ?s1 = "s\<lparr>sent := sent s @ map (\<lambda>w. (w, ?line))
                  (filter (\<lambda>w. w \<notin> e \<and> w \<notin> broken s) (map fst (clients s)))\<rparr>"
  have b: "broadcast t e s = disconnect_each ?dead ?s1" by (rule broadcast_unfold)
  from sent_grows(3)[of ?dead ?s1] obtain xs where
    "sent (disconnect_each ?dead ?s1) = sent ?s1 @ xs" by blast
  then have "sent (broadcast t e s) =
       sent s @ map (\<lambda>w. (w, ?line))
                  (filter (\<lambda>w. w \<notin> e \<and> w \<notin> broken s) (map fst (clients s))) @ xs"
    unfolding b by simp
  then show "\<exists>rest. sent (broadcast t e s) =
       sent s @ map (\<lambda>w. (w, ?line))
                  (filter (\<lambda>w. w \<notin> e \<and> w \<notin> broken s) (map fst (clients s))) @ rest" ..
  show "broadcast t e s = fold (\<lambda>w. disconnect w ''broken pipe'') ?dead ?s1"
    unfolding b by (rule disconnect_each_fold)
  show "\<forall>w \<in> fst ` set (clients s). w \<notin> e \<and> w \<in> broken s \<longrightarrow>
       w \<notin> fst ` set (clients (broadcast t e s)) \<and> w \<in> closed (broadcast t e s)"
  proof (intro ballI impI)
    fix w assume "w \<in> fst ` set (clients s)" and "w \<notin> e \<and> w \<in> broken s"
    then have "w \<in> set ?dead" by simp
    then show "w \<notin> fst ` set (clients (broadcast t e s)) \<and> w \<in> closed (broadcast t e s)"
      unfolding b by (rule disconnect_each_gone)
  qed
  show "\<forall>w. w \<notin> broken s \<longrightarrow> map_of (clients (broadcast t e s)) w = map_of (clients s) w"
    using working_stay(2) by blast
qed

theorem broadcast_outcome_witness:
  "sent (broadcast ''hi'' {1}
      \<lparr>clients = [(1, Some ''alice''), (2, Some ''bob''), (3, Some ''carol'')],
       nick_to_writer = [(''alice'', 1), (''bob'', 2), (''carol'', 3)],
       sent = [], closed = {}, broken = {2}, clock = ''12:00''\<rparr>) =
     [(3, ''[12:00] hi\<newline>''),
      (1, ''[12:00] * bob left (broken pipe)\<newline>''),
      (3, ''[12:00] * bob left (broken pipe)\<newline>'')] \<and>
   2 \<notin> fst ` set (clients (broadcast ''hi'' {1}
      \<lparr>clients = [(1, Some ''alice''), (2, Some ''bob''), (3, Some ''carol'')],
       nick_to_writer = [(''alice'', 1), (''bob'', 2), (''carol'', 3)],
       sent = [], closed = {}, broken = {2}, clock = ''12:00''\<rparr>)) \<and>
   2 \<in> closed (broadcast ''hi'' {1}
      \<lparr>clients = [(1, Some ''alice''), (2, Some ''bob''), (3, Some ''carol'')],
       nick_to_writer = [(''alice'', 1), (''bob'', 2), (''carol'', 3)],
       sent = [], closed = {}, broken = {2}, clock = ''12:00''\<rparr>) \<and>
   map_of (clients (broadcast ''hi'' {1}
      \<lparr>clients = [(1, Some ''alice''), (2, Some ''bob''), (3, Some ''carol'')],
       nick_to_writer = [(''alice'', 1), (''bob'', 2), (''carol'', 3)],
       sent = [], closed = {}, broken = {2}, clock = ''12:00''\<rparr>)) 3 = Some (Some ''carol'')"
proof -
  let ?s = "\<lparr>clients = [(1, Some ''alice''), (2, Some ''bob''), (3, Some ''carol'')],
       nick_to_writer = [(''alice'', 1), (''bob'', 2), (''carol'', 3)],
       sent = [], closed = {}, broken = {2}, clock = ''12:00''\<rparr>"
  note t = broadcast_outcome[of "''hi''" "{1}" ?s]
  have 1: "2 \<in> fst ` set (clients ?s)" "2 \<notin> {1::nat} \<and> 2 \<in> broken ?s" "3 \<notin> broken ?s"
    by simp_all
  from t 1 have "2 \<notin> fst ` set (clients (broadcast ''hi'' {1} ?s)) \<and>
      2 \<in> closed (broadcast ''hi'' {1} ?s)" by blast
  moreover from t 1 have "map_of (clients (broadcast ''hi'' {1} ?s)) 3 = map_of (clients ?s) 3"
    by blast
  moreover have "sent (broadcast ''hi'' {1} ?s) =
     [(3, ''[12:00] hi\<newline>''),
      (1, ''[12:00] * bob left (broken pipe)\<newline>''),
      (3, ''[12:00] * bob left (broken pipe)\<newline>'')]" by code_simp
  ultimately show ?thesis by simp
qed

subsection \<open>The lines a disconnect sends\<close>

lemma names_iff: "m \<in> names s \<longleftrightarrow> (\<exists>c. (c, Some m) \<in> set (clients s))"
  by (force simp: names_def map_filter_def)

lemma clients_get_names: "clients_get s w = Some n \<Longrightarrow> n \<in> names s"
  by (auto simp: names_iff clients_get_def split: option.splits dest: map_of_SomeD)

lemma names_filter:
  "clients s' = filter P (clients s) \<Longrightarrow> names s' \<subseteq> names s"
  by (auto simp: names_iff)

lemma names_shrink:
  "names (disconnect w r s) \<subseteq> names s"
  "names (broadcast t e s) \<subseteq> names s"
  "names (disconnect_each ws s) \<subseteq> names s"
  using only_removed(1)[of w s r] only_removed(2)[of s t e] only_removed(3)[of ws s]
  by (blast dest: names_filter)+

lemma names_drop_client: "names (drop_client w name s) \<subseteq> names s"
  by (rule names_filter[where P = "\<lambda>(k, _). k \<notin> {w}"]) (simp add: delete_as_filter)

lemma departure_cong:
  "clock s' = clock s \<Longrightarrow> departure s' n r = departure s n r"
  by (simp add: departure_def)

lemma sent_departures:
  "\<exists>xs. sent (disconnect w r s) = sent s @ xs \<and>
     snd ` set xs \<subseteq> {l. \<exists>n. clients_get s w = Some n \<and> l = departure s n r} \<union>
                    (\<lambda>m. departure s m ''broken pipe'') ` names s"
  "\<exists>xs. sent (broadcast t e s) = sent s @ xs \<and>
     snd ` set xs \<subseteq> {''['' @ clock s @ ''] '' @ t @ ''\<newline>''} \<union>
                    (\<lambda>m. departure s m ''broken pipe'') ` names s"
  "\<exists>xs. sent (disconnect_each ws s) = sent s @ xs \<and>
     snd ` set xs \<subseteq> (\<lambda>m. departure s m ''broken pipe'') ` names s"
proof (induction w r s and t e s and ws s rule: disconnect_broadcast_disconnect_each.induct)
  case (1 writer reason s)
  show ?case
  proof (cases "clients_get s writer")
    case None
    then have "sent (disconnect writer reason s) = sent s @ []"
      by (simp add: disconnect_unfold)
    then show ?thesis by (intro exI[of _ "[]"] conjI) simp_all
  next
    case (Some n)
    show ?thesis
    proof (cases "n = []")
      case True
      with Some have "sent (disconnect writer reason s) = sent s @ []"
        by (simp add: disconnect_unfold)
      then show ?thesis by (intro exI[of _ "[]"] conjI) simp_all
    next
      case False
      let ?s1 = "drop_client writer (Some n) s"
      let ?t = "''* '' @ n @ '' left ('' @ reason @ '')''"
      from 1[OF refl refl Some False] Some obtain xs where
        x: "sent (broadcast ?t {} ?s1) = sent ?s1 @ xs"
        and l: "snd ` set xs \<subseteq> {''['' @ clock ?s1 @ ''] '' @ ?t @ ''\<newline>''} \<union>
                    (\<lambda>m. departure ?s1 m ''broken pipe'') ` names ?s1"
        by auto
      have d: "disconnect writer reason s = broadcast ?t {} ?s1"
        using Some False by (simp add: disconnect_unfold)
      have e1: "''['' @ clock ?s1 @ ''] '' @ ?t @ ''\<newline>'' = departure s n reason"
        by (simp add: departure_def)
      have e2: "(\<lambda>m. departure ?s1 m ''broken pipe'') ` names ?s1 \<subseteq>
          (\<lambda>m. departure s m ''broken pipe'') ` names s"
        using names_drop_client[of writer "Some n" s] by (auto simp: departure_def)
      from l have "snd ` set xs \<subseteq> {departure s n reason} \<union>
          (\<lambda>m. departure ?s1 m ''broken pipe'') ` names ?s1"
        unfolding e1 .
      with e2 have "snd ` set xs \<subseteq> {departure s n reason} \<union>
          (\<lambda>m. departure s m ''broken pipe'') ` names s"
        by blast
      moreover have "{departure s n reason} \<subseteq>
          {l. \<exists>n. clients_get s writer = Some n \<and> l = departure s n reason}"
        using Some by blast
      ultimately have "snd ` set xs \<subseteq>
          {l. \<exists>n. clients_get s writer = Some n \<and> l = departure s n reason} \<union>
          (\<lambda>m. departure s m ''broken pipe'') ` names s"
        by blast
      moreover from x have "sent (disconnect writer reason s) = sent s @ xs"
        unfolding d by simp
      ultimately show ?thesis by (intro exI[of _ xs] conjI)
    qed
  qed
next
  case (2 msg excl s)
  let ?line = "''['' @ clock s @ ''] '' @ msg @ ''\<newline>''"
  let ?live = "filter (\<lambda>w. w \<notin> excl \<and> w \<notin> broken s) (map fst (clients s))"
  let ?dead = "filter (\<lambda>w. w \<notin> excl \<and> w \<in> broken s) (map fst (clients s))"
  let ?s1 = "s\<lparr>sent := sent s @ map (\<lambda>w. (w, ?line)) ?live\<rparr>"
  from 2[OF refl refl] obtain xs where
    x: "sent (disconnect_each ?dead ?s1) = sent ?s1 @ xs"
    and l: "snd ` set xs \<subseteq> (\<lambda>m. departure ?s1 m ''broken pipe'') ` names ?s1"
    by (auto simp: broadcast_loop_eq)
  have n: "names ?s1 = names s" by (simp add: names_def)
  have dp: "departure ?s1 m r = departure s m r" for m r by (simp add: departure_def)
  have "sent (broadcast msg excl s) = sent s @ (map (\<lambda>w. (w, ?line)) ?live @ xs)"
    unfolding broadcast_unfold x by simp
  moreover have "snd ` set (map (\<lambda>w. (w, ?line)) ?live @ xs) \<subseteq>
      {?line} \<union> (\<lambda>m. departure s m ''broken pipe'') ` names s"
    using l unfolding n dp by auto
  ultimately show ?case by (intro exI[of _ "map (\<lambda>w. (w, ?line)) ?live @ xs"] conjI)
next
  case (3 s)
  have "sent (disconnect_each [] s) = sent s @ []" by simp
  then show ?case by (intro exI[of _ "[]"] conjI) simp_all
next
  case (4 w ws s)
  let ?s2 = "disconnect w ''broken pipe'' s"
  from 4(1) obtain xs where x: "sent ?s2 = sent s @ xs"
    and l: "snd ` set xs \<subseteq> {l. \<exists>n. clients_get s w = Some n \<and> l = departure s n ''broken pipe''} \<union>
                    (\<lambda>m. departure s m ''broken pipe'') ` names s"
    by blast
  from 4(2) obtain ys where y: "sent (disconnect_each ws ?s2) = sent ?s2 @ ys"
    and k: "snd ` set ys \<subseteq> (\<lambda>m. departure ?s2 m ''broken pipe'') ` names ?s2"
    by blast
  have dp: "departure ?s2 m r = departure s m r" for m r
    by (simp add: departure_def env_unchanged)
  from l have l': "snd ` set xs \<subseteq> (\<lambda>m. departure s m ''broken pipe'') ` names s"
    using clients_get_names[of s w] by auto
  from k have k': "snd ` set ys \<subseteq> (\<lambda>m. departure s m ''broken pipe'') ` names s"
    unfolding dp using names_shrink(1)[of w "''broken pipe''" s] by auto
  have "sent (disconnect_each (w # ws) s) = sent s @ (xs @ ys)"
    using x y by simp
  moreover from l' k' have "snd ` set (xs @ ys) \<subseteq> (\<lambda>m. departure s m ''broken pipe'') ` names s"
    by auto
  ultimately show ?case by (intro exI[of _ "xs @ ys"] conjI)
qed

lemma word_prefix_unique:
  assumes "token n" and "token m" and "n @ CHR '' '' # x = m @ CHR '' '' # y"
  shows "n = m"
proof -
  have "takeWhile (\<lambda>c. \<not> isspace c) (a @ CHR '' '' # z) = a" if "token a" for a z
    using that space_isspace by (simp add: token_def list_all_iff)
  from this[OF assms(1), of x] this[OF assms(2), of y] assms(3) show ?thesis by simp
qed

lemma departure_inject:
  assumes "token n" and "token m" and "departure s n r = departure s m r'"
  shows "n = m"
proof -
  from assms(3) have "n @ CHR '' '' # (''left ('' @ r @ '')\<newline>'') = m @ CHR '' '' # (''left ('' @ r' @ '')\<newline>'')"
    by (simp add: departure_def)
  with assms(1,2) show ?thesis by (rule word_prefix_unique)
qed

lemma map_of_filter_keys:
  "map_of (filter (\<lambda>(k, _). k \<notin> K) xs) k = (if k \<in> K then None else map_of xs k)"
  by (induction xs) auto

lemma map_of_filter_Some:
  "map_of (filter (\<lambda>(k, _). k \<notin> K) xs) k = Some v \<Longrightarrow> map_of xs k = Some v"
  by (simp add: map_of_filter_keys split: if_splits)

lemma survivors:
  assumes "clients_get (disconnect w r s) c = Some m"
  shows "clients_get s c = Some m" and "c \<noteq> w"
proof -
  from assms have m: "map_of (clients (disconnect w r s)) c = Some (Some m)"
    by (auto simp: clients_get_def split: option.splits)
  from only_removed(1)[of w s r] obtain K where
    c: "clients (disconnect w r s) = filter (\<lambda>(k, _). k \<notin> K) (clients s)" by blast
  from m have "map_of (clients s) c = Some (Some m)"
    unfolding c by (rule map_of_filter_Some)
  then show "clients_get s c = Some m" by (simp add: clients_get_def)
  from m have "c \<in> fst ` set (clients (disconnect w r s))"
    by (auto dest!: map_of_SomeD) force
  with keys_shrink(1)[of w r s] show "c \<noteq> w" by blast
qed

lemma name_free_after_disconnect:
  assumes c: "consistent s" and n: "clients_get s w = Some n"
  shows "lower n \<notin> set (map (\<lambda>(n, _). lower n) (nick_to_writer (disconnect w r s)))"
proof
  let ?s' = "disconnect w r s"
  assume "lower n \<in> set (map (\<lambda>(n, _). lower n) (nick_to_writer ?s'))"
  then obtain m c' where mc: "(m, c') \<in> set (nick_to_writer ?s')" and lo: "lower m = lower n"
    by auto
  from c have c': "consistent ?s'" by (rule consistent_recursion(1))
  from mc have "clients_get ?s' c' = Some m" by (simp add: consistent_named_iff[OF c'])
  from survivors[OF this] have "clients_get s c' = Some m" and ne: "c' \<noteq> w" .
  then have "(m, c') \<in> set (nick_to_writer s)" by (simp add: consistent_named_iff[OF c])
  moreover from n have "(n, w) \<in> set (nick_to_writer s)" by (simp add: consistent_named_iff[OF c])
  ultimately have "c' = w" using consistent_one_owner[OF c _ _ lo] by blast
  with ne show False by simp
qed

lemma env_set_nick [simp]: "broken (set_nick w n s) = broken s"
  by (simp add: set_nick_def Let_def)

lemma clients_get_set_nick: "clients_get (set_nick w n s) w = Some n"
  by (simp add: clients_get_def update_conv')

lemma working_announce_join:
  assumes "c \<notin> broken s"
  shows "map_of (clients (announce_join c n s)) c = map_of (clients s) c"
proof -
  let ?s1 = "send_line c (''OK. You are now '' @ [CHR 0x27] @ n @ [CHR 0x27] @ ''.\<newline>'') s"
  from assms have 1: "clients ?s1 = clients s" and 2: "broken ?s1 = broken s"
    by (simp_all add: send_line_def write_drain_def)
  from assms 2 have "c \<notin> broken ?s1" by simp
  from working_stay(2)[OF this] 1 show ?thesis by (simp add: announce_join_def)
qed

lemma nick_succeeds:
  assumes c: "consistent s" and t: "token n"
    and fr: "lower n \<notin> set (map (\<lambda>(n, _). lower n) (nick_to_writer s))"
    and w: "c \<notin> broken s"
  shows "\<exists>s'. handle_command c (''/nick '' @ n) s = Return s' \<and> clients_get s' c = Some n \<and>
              map_of (nick_to_writer s') n = Some c"
proof -
  let ?s2 = "set_nick c n s"
  have h: "handle_command c (''/nick '' @ n) s = cmd_nick c [n] s"
    using split_nick_line[OF t] lower_nick by (rule nick_dispatch)
  from t have st: "strip n = n" "n \<noteq> []" "CHR '' '' \<notin> set n"
    by (simp_all add: strip_token token_no_space token_def)
  from w have w2: "c \<notin> broken ?s2" by simp
  obtain s' where r: "cmd_nick c [n] s = Return s'"
    and m: "map_of (clients s') c = map_of (clients ?s2) c"
  proof (cases "clients_get s c")
    case None
    with st fr have "cmd_nick c [n] s = Return (announce_join c n ?s2)"
      by (simp add: cmd_nick_def)
    with working_announce_join[OF w2] that show ?thesis by blast
  next
    case (Some old)
    show ?thesis
    proof (cases "old = []")
      case True
      with Some st fr have "cmd_nick c [n] s = Return (announce_join c n ?s2)"
        by (simp add: cmd_nick_def)
      with working_announce_join[OF w2] that show ?thesis by blast
    next
      case False
      with Some st fr have "cmd_nick c [n] s =
          Return (broadcast (''* '' @ old @ '' is now known as '' @ n) {} ?s2)"
        by (simp add: cmd_nick_def)
      with working_stay(2)[OF w2] that show ?thesis by blast
    qed
  qed
  from m have g: "clients_get s' c = Some n"
    using clients_get_set_nick[of c n s] by (simp add: clients_get_def)
  have "consistent (state_of (cmd_nick c [n] s))"
    using c t by (intro consistent_cmd_nick) simp_all
  with r have cs: "consistent s'" by simp
  from g have "(n, c) \<in> set (nick_to_writer s')" by (simp add: consistent_named_iff[OF cs])
  moreover from cs have "distinct (map fst (nick_to_writer s'))"
    by (simp add: consistent_def distinct_lower_keys)
  ultimately have "map_of (nick_to_writer s') n = Some c" by simp
  with h r g show ?thesis by simp
qed

lemma departure_sent:
  assumes c: "consistent s" and n: "clients_get s w = Some n"
  shows "\<exists>rest. sent (disconnect w r s) =
           sent s @ map (\<lambda>c. (c, departure s n r))
                      (filter (\<lambda>c. c \<notin> broken s) (map fst (AList.delete w (clients s)))) @ rest \<and>
           departure s n r \<notin> snd ` set rest"
proof -
  from c n have t: "token n" by (rule consistent_token)
  then have ne: "n \<noteq> []" by (simp add: token_def)
  let ?s1 = "drop_client w (Some n) s"
  let ?txt = "''* '' @ n @ '' left ('' @ r @ '')''"
  let ?live = "filter (\<lambda>c. c \<notin> broken s) (map fst (AList.delete w (clients s)))"
  let ?dead = "filter (\<lambda>c. c \<in> broken s) (map fst (AList.delete w (clients s)))"
  let ?s2 = "?s1\<lparr>sent := sent s @ map (\<lambda>c. (c, departure s n r)) ?live\<rparr>"
  have d: "disconnect w r s = disconnect_each ?dead ?s2"
    using n ne by (simp add: disconnect_unfold broadcast_unfold departure_def)
  from sent_departures(3)[of ?dead ?s2] obtain rest where
    x: "sent (disconnect_each ?dead ?s2) = sent ?s2 @ rest"
    and l: "snd ` set rest \<subseteq> (\<lambda>m. departure ?s2 m ''broken pipe'') ` names ?s2"
    by blast
  have c1: "consistent ?s1" using consistent_drop_client[OF c, of w] n by simp
  have "departure s n r \<notin> snd ` set rest"
  proof
    assume "departure s n r \<in> snd ` set rest"
    with l obtain m where m: "m \<in> names ?s2" and e: "departure s n r = departure ?s2 m ''broken pipe''"
      by blast
    from m have "m \<in> names ?s1" by (simp add: names_def)
    then obtain c' where cm: "(c', Some m) \<in> set (clients ?s1)" by (auto simp: names_iff)
    from c1 have "distinct (map fst (clients ?s1))" by (simp add: consistent_def)
    with cm have g1: "clients_get ?s1 c' = Some m" by (simp add: clients_get_def)
    from consistent_token[OF c1 g1] have tm: "token m" .
    from e have "departure s n r = departure s m ''broken pipe''" by (simp add: departure_def)
    from departure_inject[OF t tm this] have nm: "n = m" .
    from cm have "c' \<noteq> w" by (auto simp: AList.delete_eq)
    moreover from cm have "(c', Some m) \<in> set (clients s)" by (auto simp: AList.delete_eq)
    moreover from c have "distinct (map fst (clients s))" by (simp add: consistent_def)
    ultimately have "clients_get s c' = Some m" by (simp add: clients_get_def)
    with nm have "(n, c') \<in> set (nick_to_writer s)" by (simp add: consistent_named_iff[OF c])
    moreover from n have "(n, w) \<in> set (nick_to_writer s)" by (simp add: consistent_named_iff[OF c])
    ultimately have "c' = w" using consistent_one_owner[OF c, of n c' n w] by simp
    with \<open>c' \<noteq> w\<close> show False by simp
  qed
  moreover from x have "sent (disconnect w r s) =
      sent s @ map (\<lambda>c. (c, departure s n r)) ?live @ rest"
    unfolding d by simp
  ultimately show ?thesis by (intro exI[of _ rest] conjI)
qed

subsection \<open>A departure, and the name free again\<close>

text \<open>
  Claim C5. In a state where the dictionaries agree, disconnecting a connection \<open>w\<close> with
  nickname \<open>n\<close> for a reason \<open>r\<close>: takes \<open>w\<close> out of the registry and \<open>n\<close> out of the
  directory; sends the departure notice \<^verbatim>\<open>[HH:MM] * n left (r)\<close> once to every other
  registered connection whose write succeeds (these are the next lines sent, one for each
  such connection, and the notice is not sent again among the lines that follow, which are
  about connections that failed); and afterwards \<^verbatim>\<open>/nick n\<close> from any other connection
  whose writes succeed returns with that connection holding \<open>n\<close> in both dictionaries.
\<close>

theorem departure_and_reuse:
  assumes "consistent s" and "clients_get s w = Some n"
  shows "w \<notin> fst ` set (clients (disconnect w r s)) \<and>
     n \<notin> fst ` set (nick_to_writer (disconnect w r s)) \<and>
     (\<exists>rest. sent (disconnect w r s) =
           sent s @ map (\<lambda>c. (c, departure s n r))
                      (filter (\<lambda>c. c \<notin> broken s) (map fst (AList.delete w (clients s)))) @ rest \<and>
           departure s n r \<notin> snd ` set rest) \<and>
     distinct (filter (\<lambda>c. c \<notin> broken s) (map fst (AList.delete w (clients s)))) \<and>
     (\<forall>c. c \<noteq> w \<and> c \<notin> broken s \<longrightarrow>
        (\<exists>s'. handle_command c (''/nick '' @ n) (disconnect w r s) = Return s' \<and>
              clients_get s' c = Some n \<and> map_of (nick_to_writer s') n = Some c))"
proof (intro conjI)
  let ?s' = "disconnect w r s"
  from assms(1) have c': "consistent ?s'" by (rule consistent_recursion(1))
  from assms have t: "token n" by (rule consistent_token)
  note fr = name_free_after_disconnect[OF assms, of r]
  show "w \<notin> fst ` set (clients ?s')" using keys_shrink(1)[of w r s] by blast
  show "n \<notin> fst ` set (nick_to_writer ?s')" using fr by force
  show "\<exists>rest. sent ?s' =
           sent s @ map (\<lambda>c. (c, departure s n r))
                      (filter (\<lambda>c. c \<notin> broken s) (map fst (AList.delete w (clients s)))) @ rest \<and>
           departure s n r \<notin> snd ` set rest"
    using assms by (rule departure_sent)
  from assms(1) have "distinct (map fst (clients s))" by (simp add: consistent_def)
  then show "distinct (filter (\<lambda>c. c \<notin> broken s) (map fst (AList.delete w (clients s))))"
    by (simp add: distinct_delete)
  show "\<forall>c. c \<noteq> w \<and> c \<notin> broken s \<longrightarrow>
        (\<exists>s'. handle_command c (''/nick '' @ n) ?s' = Return s' \<and>
              clients_get s' c = Some n \<and> map_of (nick_to_writer s') n = Some c)"
  proof (intro allI impI)
    fix c assume "c \<noteq> w \<and> c \<notin> broken s"
    then have "c \<notin> broken ?s'" by (simp add: env_unchanged)
    with c' t fr show "\<exists>s'. handle_command c (''/nick '' @ n) ?s' = Return s' \<and>
              clients_get s' c = Some n \<and> map_of (nick_to_writer s') n = Some c"
      by (rule nick_succeeds)
  qed
qed

theorem departure_and_reuse_witness:
  "sent (disconnect 1 ''quit''
      \<lparr>clients = [(1, Some ''alice''), (2, Some ''bob''), (3, None)],
       nick_to_writer = [(''alice'', 1), (''bob'', 2)],
       sent = [], closed = {}, broken = {}, clock = ''12:00''\<rparr>) =
     [(2, ''[12:00] * alice left (quit)\<newline>''), (3, ''[12:00] * alice left (quit)\<newline>'')] \<and>
   1 \<notin> fst ` set (clients (disconnect 1 ''quit''
      \<lparr>clients = [(1, Some ''alice''), (2, Some ''bob''), (3, None)],
       nick_to_writer = [(''alice'', 1), (''bob'', 2)],
       sent = [], closed = {}, broken = {}, clock = ''12:00''\<rparr>)) \<and>
   ''alice'' \<notin> fst ` set (nick_to_writer (disconnect 1 ''quit''
      \<lparr>clients = [(1, Some ''alice''), (2, Some ''bob''), (3, None)],
       nick_to_writer = [(''alice'', 1), (''bob'', 2)],
       sent = [], closed = {}, broken = {}, clock = ''12:00''\<rparr>)) \<and>
   clients_get (state_of (handle_command 3 ''/nick alice'' (disconnect 1 ''quit''
      \<lparr>clients = [(1, Some ''alice''), (2, Some ''bob''), (3, None)],
       nick_to_writer = [(''alice'', 1), (''bob'', 2)],
       sent = [], closed = {}, broken = {}, clock = ''12:00''\<rparr>))) 3 = Some ''alice''"
proof -
  let ?s = "\<lparr>clients = [(1, Some ''alice''), (2, Some ''bob''), (3, None)],
       nick_to_writer = [(''alice'', 1), (''bob'', 2)],
       sent = [], closed = {}, broken = {}, clock = ''12:00''\<rparr>"
  have 1: "consistent ?s" by code_simp
  have 2: "clients_get ?s 1 = Some ''alice''" by code_simp
  note t = departure_and_reuse[OF 1 2, of "''quit''"]
  from t have a: "1 \<notin> fst ` set (clients (disconnect 1 ''quit'' ?s))"
    and b: "''alice'' \<notin> fst ` set (nick_to_writer (disconnect 1 ''quit'' ?s))"
    by blast+
  have "(3::nat) \<noteq> 1 \<and> 3 \<notin> broken ?s" by simp
  with t obtain s' where "handle_command 3 (''/nick '' @ ''alice'') (disconnect 1 ''quit'' ?s) = Return s'"
    and "clients_get s' 3 = Some ''alice''" by blast
  then have d: "clients_get (state_of (handle_command 3 ''/nick alice'' (disconnect 1 ''quit'' ?s))) 3
      = Some ''alice''" by simp
  have e: "sent (disconnect 1 ''quit'' ?s) =
     [(2, ''[12:00] * alice left (quit)\<newline>''), (3, ''[12:00] * alice left (quit)\<newline>'')]"
    by code_simp
  from a b d e show ?thesis by simp
qed

subsection \<open>The decoder\<close>

lemma decode_Nil [simp]: "decode e [] = Inr []"
  by simp

lemma decode_ignore_total: "\<exists>cps. decode Ignore xs = Inr cps"
proof (induction xs rule: length_induct)
  case (1 xs)
  show ?case
  proof (cases xs)
    case Nil
    then show ?thesis by simp
  next
    case (Cons b bs)
    show ?thesis
    proof (cases "utf8_next (b # bs)")
      case None
      have "length (drop (bad_span (b # bs)) (b # bs)) < length xs"
        using drop_bad_span[of b bs] Cons by simp
      with 1 obtain cps where "decode Ignore (drop (bad_span (b # bs)) (b # bs)) = Inr cps"
        by blast
      with None Cons show ?thesis by (simp del: utf8_next.simps bad_span.simps)
    next
      case (Some p)
      obtain cp rest where p: "p = (cp, rest)" by (cases p)
      from Some p have "length rest < length xs"
        using utf8_next_shorter[of "b # bs" cp rest] Cons by simp
      with 1 obtain cps where "decode Ignore rest = Inr cps" by blast
      with Some p Cons show ?thesis by (simp del: utf8_next.simps bad_span.simps)
    qed
  qed
qed

lemma decode_strict_agrees:
  "decode Strict xs = Inr cps \<Longrightarrow> decode e xs = Inr cps"
proof (induction xs arbitrary: cps rule: length_induct)
  case (1 xs)
  show ?case
  proof (cases xs)
    case Nil
    with 1(2) show ?thesis by simp
  next
    case (Cons b bs)
    show ?thesis
    proof (cases "utf8_next (b # bs)")
      case None
      with 1(2) Cons show ?thesis by (simp del: utf8_next.simps bad_span.simps)
    next
      case (Some p)
      obtain cp rest where p: "p = (cp, rest)" by (cases p)
      from Some p have l: "length rest < length xs"
        using utf8_next_shorter[of "b # bs" cp rest] Cons by simp
      from 1(2) Some p Cons obtain cps' where r: "decode Strict rest = Inr cps'"
        and c: "cps = cp # cps'"
        by (auto simp del: utf8_next.simps bad_span.simps split: sum.splits)
      from 1(1) l r have "decode e rest = Inr cps'" by blast
      with Some p Cons c show ?thesis by (simp del: utf8_next.simps bad_span.simps)
    qed
  qed
qed

lemma utf8_next_append:
  "utf8_next xs = Some (cp, rest) \<Longrightarrow> utf8_next (xs @ zs) = Some (cp, rest @ zs)"
  by (cases xs) (auto split: if_splits list.splits)

lemma utf8_next_no_start:
  "0x80 \<le> b \<Longrightarrow> b < 0xC2 \<or> 0xF4 < b \<Longrightarrow> utf8_next (b # ys) = None \<and> bad_span (b # ys) = 1"
  by auto

lemma decode_drops_stray_byte:
  assumes "0x80 \<le> b" and "b < 0xC2 \<or> 0xF4 < b"
  shows "decode Strict xs = Inr cx \<Longrightarrow> decode Ignore (xs @ b # ys) = decode Ignore (xs @ ys)"
proof (induction xs arbitrary: cx rule: length_induct)
  case (1 xs)
  show ?case
  proof (cases xs)
    case Nil
    from utf8_next_no_start[OF assms, of ys] have "decode Ignore (b # ys) = decode Ignore ys"
      by (simp del: utf8_next.simps bad_span.simps)
    with Nil show ?thesis by simp
  next
    case (Cons a as)
    show ?thesis
    proof (cases "utf8_next (a # as)")
      case None
      with 1(2) Cons show ?thesis by (simp del: utf8_next.simps bad_span.simps)
    next
      case (Some p)
      obtain cp rest where p: "p = (cp, rest)" by (cases p)
      from Some p have l: "length rest < length xs"
        using utf8_next_shorter[of "a # as" cp rest] Cons by simp
      from 1(2) Some p Cons obtain cps' where r: "decode Strict rest = Inr cps'"
        by (auto simp del: utf8_next.simps bad_span.simps split: sum.splits)
      from 1(1) l r have ih: "decode Ignore (rest @ b # ys) = decode Ignore (rest @ ys)" by blast
      from Some p have n: "utf8_next ((a # as) @ zs) = Some (cp, rest @ zs)" for zs
        by (simp only: utf8_next_append)
      have "decode Ignore ((a # as) @ zs) =
          (case decode Ignore (rest @ zs) of Inl x \<Rightarrow> Inl x | Inr cps \<Rightarrow> Inr (cp # cps))" for zs
        using n[of zs] by (simp del: utf8_next.simps bad_span.simps)
      with ih Cons show ?thesis by simp
    qed
  qed
qed

lemma three_byte_fffd:
  fixes a b c :: nat
  assumes "224 \<le> a" "a \<le> 239" "128 \<le> b" "b \<le> 191" "128 \<le> c" "c \<le> 191"
    and e: "(a - 224) * 4096 + (b - 128) * 64 + (c - 128) = 65533"
  shows "a = 239 \<and> b = 191 \<and> c = 189"
proof -
  have a: "a = 239"
  proof (rule ccontr)
    assume "a \<noteq> 239"
    with assms(2) have "a - 224 \<le> 14" by simp
    then have "(a - 224) * 4096 \<le> 14 * 4096" by (rule mult_le_mono1)
    moreover from assms(4) have "(b - 128) * 64 \<le> 63 * 64" by (intro mult_le_mono1) simp
    ultimately show False using e assms(6) by simp
  qed
  have b: "b = 191"
  proof (rule ccontr)
    assume "b \<noteq> 191"
    with assms(4) have "b - 128 \<le> 62" by simp
    then have "(b - 128) * 64 \<le> 62 * 64" by (rule mult_le_mono1)
    then show False using e a assms(6) by simp
  qed
  from e a b assms(5) have "c = 189" by simp
  with a b show ?thesis by simp
qed

lemma utf8_next_replacement:
  assumes "utf8_next xs = Some (0xFFFD, rest)"
  shows "xs = [0xEF, 0xBF, 0xBD] @ rest"
proof (cases xs)
  case Nil
  with assms show ?thesis by simp
next
  case (Cons b0 bs)
  with assms have "\<exists>b1 b2. bs = b1 # b2 # rest \<and> 224 \<le> b0 \<and> b0 \<le> 239 \<and> 128 \<le> b1 \<and> b1 \<le> 191 \<and>
      128 \<le> b2 \<and> b2 \<le> 191 \<and> (b0 - 224) * 4096 + (b1 - 128) * 64 + (b2 - 128) = 65533"
    by (auto simp: cont_def second3_def second4_def split: if_splits list.splits)
  then obtain b1 b2 where bs: "bs = b1 # b2 # rest"
    and r: "224 \<le> b0" "b0 \<le> 239" "128 \<le> b1" "b1 \<le> 191" "128 \<le> b2" "b2 \<le> 191"
    and e: "(b0 - 224) * 4096 + (b1 - 128) * 64 + (b2 - 128) = 65533"
    by blast
  from three_byte_fffd[OF r e] bs Cons show ?thesis by simp
qed

lemma decode_ignore_replacement:
  "decode Ignore xs = Inr cps \<Longrightarrow> 0xFFFD \<in> set cps \<Longrightarrow> \<exists>u v. xs = u @ [0xEF, 0xBF, 0xBD] @ v"
proof (induction xs arbitrary: cps rule: length_induct)
  case (1 xs)
  show ?case
  proof (cases xs)
    case Nil
    with 1(2,3) show ?thesis by simp
  next
    case (Cons b bs)
    show ?thesis
    proof (cases "utf8_next (b # bs)")
      case None
      let ?k = "bad_span (b # bs)"
      have l: "length (drop ?k (b # bs)) < length xs"
        using drop_bad_span[of b bs] Cons by simp
      from 1(2) None Cons have "decode Ignore (drop ?k (b # bs)) = Inr cps"
        by (simp del: utf8_next.simps bad_span.simps)
      with 1(1) l 1(3) obtain u v where "drop ?k (b # bs) = u @ [0xEF, 0xBF, 0xBD] @ v" by blast
      then have "take ?k (b # bs) @ drop ?k (b # bs) = (take ?k (b # bs) @ u) @ [0xEF, 0xBF, 0xBD] @ v"
        by simp
      then have "xs = (take ?k (b # bs) @ u) @ [0xEF, 0xBF, 0xBD] @ v"
        unfolding append_take_drop_id Cons .
      then show ?thesis by blast
    next
      case (Some p)
      obtain cp rest where p: "p = (cp, rest)" by (cases p)
      from Some p have l: "length rest < length xs"
        using utf8_next_shorter[of "b # bs" cp rest] Cons by simp
      from 1(2) Some p Cons obtain cps' where r: "decode Ignore rest = Inr cps'"
        and c: "cps = cp # cps'"
        by (auto simp del: utf8_next.simps bad_span.simps split: sum.splits)
      show ?thesis
      proof (cases "cp = 0xFFFD")
        case True
        with Some p have "b # bs = [0xEF, 0xBF, 0xBD] @ rest"
          by (intro utf8_next_replacement) simp
        with Cons have "xs = [] @ [0xEF, 0xBF, 0xBD] @ rest" by simp
        then show ?thesis by blast
      next
        case False
        with 1(3) c have "0xFFFD \<in> set cps'" by simp
        with 1(1) l r obtain u v where uv: "rest = u @ [0xEF, 0xBF, 0xBD] @ v" by blast
        from Some p have "length rest \<le> length (b # bs)"
          using utf8_next_shorter[of "b # bs" cp rest] by simp
        have "\<exists>pre. b # bs = pre @ rest"
          using Some p by (auto split: if_splits list.splits)
        then obtain pre where "b # bs = pre @ rest" ..
        with uv Cons have "xs = (pre @ u) @ [0xEF, 0xBF, 0xBD] @ v" by simp
        then show ?thesis by blast
      qed
    qed
  qed
qed

lemma set_rstrip_crlf: "set (rstrip_crlf xs) \<subseteq> set xs"
  by (auto simp: rstrip_crlf_def dest: set_dropWhileD)

subsection \<open>Bytes that are not UTF-8\<close>

text \<open>
  Claim C9 says that invalid bytes are replaced by a replacement character. The handler
  decodes with \<^verbatim>\<open>errors="ignore"\<close>: the bytes are dropped, and nothing stands in
  their place. Decoding with \<^verbatim>\<open>errors="replace"\<close> is what would put U+FFFD there.
\<close>

theorem invalid_byte_is_not_replaced:
  "decode_line [0x68, 0xFF, 0x69, 0x0D, 0x0A] = Inr [0x68, 0x69] \<and>
   decode Replace [0x68, 0xFF, 0x69, 0x0D, 0x0A] = Inr [0x68, 0xFFFD, 0x69, 0x0D, 0x0A]"
  by (simp add: decode_line_def rstrip_crlf_def)

text \<open>
  Claim C9, amended. Decoding a received line never raises, whatever the bytes. Bytes that
  are valid UTF-8 are decoded as the strict decoder decodes them. A byte that cannot
  begin a character (0x80 to 0xC1, 0xF5 to 0xFF), standing where a character would
  begin, is dropped: the line decodes as if the byte were not there. And no replacement
  character is put in: U+FFFD is in the decoded line only where the bytes EF BF BD, its
  own encoding, are in the input.
\<close>

theorem invalid_bytes_are_dropped:
  "(\<exists>cps. decode_line raw = Inr cps) \<and>
   (\<forall>cps. decode Strict raw = Inr cps \<longrightarrow> decode_line raw = Inr (rstrip_crlf cps)) \<and>
   (\<forall>xs cx b ys. decode Strict xs = Inr cx \<and> 0x80 \<le> b \<and> (b < 0xC2 \<or> 0xF4 < b) \<longrightarrow>
      decode_line (xs @ b # ys) = decode_line (xs @ ys)) \<and>
   (\<forall>cps. decode_line raw = Inr cps \<and> 0xFFFD \<in> set cps \<longrightarrow>
      (\<exists>u v. raw = u @ [0xEF, 0xBF, 0xBD] @ v))"
proof (intro conjI allI impI)
  from decode_ignore_total[of raw] show "\<exists>cps. decode_line raw = Inr cps"
    by (auto simp: decode_line_def)
next
  fix cps assume "decode Strict raw = Inr cps"
  then have "decode Ignore raw = Inr cps" by (rule decode_strict_agrees)
  then show "decode_line raw = Inr (rstrip_crlf cps)" by (simp add: decode_line_def)
next
  fix xs ys cx :: "nat list" and b :: nat
  assume "decode Strict xs = Inr cx \<and> 0x80 \<le> b \<and> (b < 0xC2 \<or> 0xF4 < b)"
  then have "decode Ignore (xs @ b # ys) = decode Ignore (xs @ ys)"
    using decode_drops_stray_byte[of b xs cx ys] by blast
  then show "decode_line (xs @ b # ys) = decode_line (xs @ ys)" by (simp add: decode_line_def)
next
  fix cps assume a: "decode_line raw = Inr cps \<and> 0xFFFD \<in> set cps"
  then obtain ds where d: "decode Ignore raw = Inr ds" and c: "cps = rstrip_crlf ds"
    by (auto simp: decode_line_def split: sum.splits)
  from a c set_rstrip_crlf[of ds] have "0xFFFD \<in> set ds" by blast
  with d show "\<exists>u v. raw = u @ [0xEF, 0xBF, 0xBD] @ v" by (rule decode_ignore_replacement)
qed

theorem invalid_bytes_are_dropped_witness:
  "decode_line ([0x2F, 0x6D, 0x65] @ 0xFF # [0x20, 0x68, 0x69, 0x0A]) =
     Inr [0x2F, 0x6D, 0x65, 0x20, 0x68, 0x69]"
proof -
  have 1: "decode Strict [0x2F, 0x6D, 0x65] = Inr [0x2F, 0x6D, 0x65] \<and> (0x80::nat) \<le> 0xFF \<and>
      ((0xFF::nat) < 0xC2 \<or> (0xF4::nat) < 0xFF)"
    by simp
  from invalid_bytes_are_dropped[of "[]"] 1
  have "decode_line ([0x2F, 0x6D, 0x65] @ 0xFF # [0x20, 0x68, 0x69, 0x0A]) =
        decode_line ([0x2F, 0x6D, 0x65] @ [0x20, 0x68, 0x69, 0x0A])"
    by blast
  moreover have "decode_line ([0x2F, 0x6D, 0x65] @ [0x20, 0x68, 0x69, 0x0A]) =
      Inr [0x2F, 0x6D, 0x65, 0x20, 0x68, 0x69]" by (simp add: decode_line_def rstrip_crlf_def)
  ultimately show ?thesis by simp
qed

end
